theory Spec2Isabelle
  imports Complex_Main "HOL-Library.Word"
begin

section \<open>Python values used by the transcription scripts\<close>

text \<open>
  A Python \<^verbatim>\<open>str\<close> is a sequence of Unicode code points; a code point is modelled by
  its number.  \<open>lit\<close> turns an ASCII literal of the source into such a sequence.
\<close>

type_synonym codepoint = nat
type_synonym str = "codepoint list"

definition lit :: "string \<Rightarrow> str" where
  "lit s = map of_char s"

text \<open>The exceptions that the modelled code can raise.\<close>

datatype error =
    OverflowError
  | ZeroDivisionError
  | ValueError
  | UnicodeEncodeError
  | NVMLError

subsection \<open>Integers as decimal text\<close>

text \<open>\<^verbatim>\<open>str(n)\<close> for a non-negative integer: its decimal digits, most significant first.\<close>

function digits :: "int \<Rightarrow> str" where
  "digits n = (if n < 10 then [48 + nat n] else digits (n div 10) @ [48 + nat (n mod 10)])"
  by pat_completeness auto
termination
  by (relation "measure nat") auto

declare digits.simps [simp del]

text \<open>\<^verbatim>\<open>f"{i}"\<close> for an integer \<open>i\<close>: a minus sign (code point 45) for negative numbers.\<close>

definition str_int :: "int \<Rightarrow> str" where
  "str_int i = (if i < 0 then 45 # digits (- i) else digits i)"

definition zfill :: "nat \<Rightarrow> str \<Rightarrow> str" where
  "zfill w s = replicate (w - length s) 48 @ s"

text \<open>
  \<^verbatim>\<open>f"{i:0Wd}"\<close>: sign-aware zero padding to a minimum width of \<open>W\<close> characters, the
  sign counting towards the width.
\<close>

definition format_0d :: "nat \<Rightarrow> int \<Rightarrow> str" where
  "format_0d w i =
     (if i < 0 then 45 # zfill (w - 1) (digits (- i)) else zfill w (digits i))"

text \<open>Reading a string of decimal digits back as a number.\<close>

definition read_decimal :: "str \<Rightarrow> int" where
  "read_decimal s = foldl (\<lambda>acc c. 10 * acc + (int c - 48)) 0 s"

subsection \<open>Text\<close>

definition TAB :: str where
  "TAB = [9]"

definition NL :: str where
  "NL = [10]"

text \<open>The code points for which \<^verbatim>\<open>str.isspace\<close> holds.\<close>

definition isspace :: "codepoint \<Rightarrow> bool" where
  "isspace c \<longleftrightarrow>
     (9 \<le> c \<and> c \<le> 13) \<or> (28 \<le> c \<and> c \<le> 32) \<or> c = 133 \<or> c = 160 \<or> c = 5760
     \<or> (8192 \<le> c \<and> c \<le> 8202) \<or> c = 8232 \<or> c = 8233 \<or> c = 8239 \<or> c = 8287
     \<or> c = 12288"

text \<open>\<^verbatim>\<open>s.strip()\<close> removes leading and trailing whitespace.\<close>

definition strip :: "str \<Rightarrow> str" where
  "strip s = rev (dropWhile isspace (rev (dropWhile isspace s)))"

text \<open>The lines of a text: the pieces that end in a line feed, and what follows the last.\<close>

fun split_lines :: "str \<Rightarrow> str list" where
  "split_lines [] = []"
| "split_lines (c # cs) =
     (if c = 10 then [] # split_lines cs
      else (case split_lines cs of [] \<Rightarrow> [[c]] | l # ls \<Rightarrow> (c # l) # ls))"

subsection \<open>Text encodings\<close>

text \<open>
  A file opened in text mode encodes what is written to it.  \<^verbatim>\<open>open(path, 'w')\<close> uses
  the platform's preferred encoding, \<^verbatim>\<open>open(path, 'w', encoding='utf-8')\<close> uses UTF-8.
  A code point that the encoding cannot represent raises \<^verbatim>\<open>UnicodeEncodeError\<close> in
  \<^verbatim>\<open>write\<close>.  (The translation of line ends in text mode is the same for every file of
  the scripts and is left out.)
\<close>

datatype encoding = UTF8 | Latin1 | ASCII

type_synonym byte = "8 word"

fun encode_char :: "encoding \<Rightarrow> codepoint \<Rightarrow> error + byte list" where
  "encode_char UTF8 c =
     (if c < 128 then Inr [of_nat c]
      else if c < 2048 then Inr [of_nat (192 + c div 64), of_nat (128 + c mod 64)]
      else if c < 65536 then
        (if 55296 \<le> c \<and> c < 57344 then Inl UnicodeEncodeError
         else Inr [of_nat (224 + c div 4096), of_nat (128 + c div 64 mod 64),
                   of_nat (128 + c mod 64)])
      else if c < 1114112 then
        Inr [of_nat (240 + c div 262144), of_nat (128 + c div 4096 mod 64),
             of_nat (128 + c div 64 mod 64), of_nat (128 + c mod 64)]
      else Inl UnicodeEncodeError)"
| "encode_char Latin1 c = (if c < 256 then Inr [of_nat c] else Inl UnicodeEncodeError)"
| "encode_char ASCII c = (if c < 128 then Inr [of_nat c] else Inl UnicodeEncodeError)"

fun encode :: "encoding \<Rightarrow> str \<Rightarrow> error + byte list" where
  "encode enc [] = Inr []"
| "encode enc (c # cs) =
     (case encode_char enc c of
        Inl e \<Rightarrow> Inl e
      | Inr b \<Rightarrow> (case encode enc cs of Inl e \<Rightarrow> Inl e | Inr bs \<Rightarrow> Inr (b @ bs)))"

text \<open>Whether an encoding can represent a text.\<close>

definition encodable :: "encoding \<Rightarrow> str \<Rightarrow> bool" where
  "encodable enc s = (case encode enc s of Inr _ \<Rightarrow> True | Inl _ \<Rightarrow> False)"

text \<open>Sequencing of computations that may raise.\<close>

definition bind_err :: "error + 'a \<Rightarrow> ('a \<Rightarrow> error + 'b) \<Rightarrow> error + 'b" where
  "bind_err m f = (case m of Inl e \<Rightarrow> Inl e | Inr x \<Rightarrow> f x)"

text \<open>
  \<^verbatim>\<open>f.write(s)\<close> on a text file with encoding \<open>enc\<close> that holds \<open>content\<close> so far.
\<close>

definition file_write :: "encoding \<Rightarrow> str \<Rightarrow> str \<Rightarrow> error + str" where
  "file_write enc content s =
     (case encode enc s of Inl e \<Rightarrow> Inl e | Inr _ \<Rightarrow> Inr (content @ s))"

subsection \<open>Floating point\<close>

text \<open>
  A finite Python \<^verbatim>\<open>float\<close> (an IEEE 754 binary64 number) is modelled by the real number
  it denotes.  \<open>fl\<close> rounds a real to the nearest binary64 value, ties to even: 53
  significant bits, and a least exponent of \<open>-1074\<close> for subnormal numbers.  Overflow is
  tested where an operation can overflow.
\<close>

function bit_length :: "int \<Rightarrow> nat" where
  "bit_length n = (if n \<le> 0 then 0 else Suc (bit_length (n div 2)))"
  by pat_completeness auto
termination
  by (relation "measure nat") auto

declare bit_length.simps [simp del]

text \<open>\<open>ilog2 x\<close> is \<open>\<lfloor>log\<^sub>2 \<bar>x\<bar>\<rfloor>\<close> for \<open>x \<noteq> 0\<close>.\<close>

definition ilog2 :: "real \<Rightarrow> int" where
  "ilog2 x =
     (if 1 \<le> \<bar>x\<bar> then int (bit_length \<lfloor>\<bar>x\<bar>\<rfloor>) - 1
      else - int (bit_length (\<lceil>1 / \<bar>x\<bar>\<rceil> - 1)))"

definition round_half_even :: "real \<Rightarrow> int" where
  "round_half_even y =
     (let f = \<lfloor>y\<rfloor>; r = y - of_int f
      in if r < 1 / 2 then f
         else if 1 / 2 < r then f + 1
         else if even f then f else f + 1)"

definition fl :: "real \<Rightarrow> real" where
  "fl x =
     (if x = 0 then 0
      else let e = max (ilog2 x - 52) (- 1074)
           in of_int (round_half_even (x / 2 powi e)) * 2 powi e)"

text \<open>A rounded result of this magnitude is an infinity in binary64.\<close>

definition float_overflow :: "real \<Rightarrow> bool" where
  "float_overflow r \<longleftrightarrow> 2 ^ 1024 \<le> \<bar>r\<bar>"

text \<open>
  \<^verbatim>\<open>a / b\<close> on Python integers: the correctly rounded quotient, \<^verbatim>\<open>OverflowError\<close> when it
  is too large for a float.
\<close>

definition int_truediv :: "int \<Rightarrow> int \<Rightarrow> error + real" where
  "int_truediv a b =
     (if b = 0 then Inl ZeroDivisionError
      else let r = fl (of_int a / of_int b)
           in if float_overflow r then Inl OverflowError else Inr r)"

text \<open>\<^verbatim>\<open>int(x)\<close> on a finite float truncates towards zero.\<close>

definition py_int :: "real \<Rightarrow> int" where
  "py_int x = (if 0 \<le> x then \<lfloor>x\<rfloor> else - \<lfloor>- x\<rfloor>)"

text \<open>C's \<^verbatim>\<open>fmod\<close> is exact and takes the sign of its first argument.\<close>

definition float_fmod :: "real \<Rightarrow> real \<Rightarrow> real" where
  "float_fmod vx wx = vx - wx * of_int (py_int (vx / wx))"

text \<open>
  \<^verbatim>\<open>vx // wx\<close> and \<^verbatim>\<open>vx % wx\<close> on floats, as CPython's \<^verbatim>\<open>float_floor_div\<close> and
  \<^verbatim>\<open>float_rem\<close> compute them from \<^verbatim>\<open>fmod\<close>; every arithmetic step rounds.  The divisors
  in the scripts are the non-zero literals 3600 and 60.
\<close>

definition float_floordiv :: "real \<Rightarrow> real \<Rightarrow> real" where
  "float_floordiv vx wx =
     (let md = float_fmod vx wx;
          dv = fl (fl (vx - md) / wx);
          dv' = (if md \<noteq> 0 \<and> (wx < 0) \<noteq> (md < 0) then fl (dv - 1) else dv);
          fd = of_int \<lfloor>dv'\<rfloor>
      in if 1 / 2 < fl (dv' - fd) then fl (fd + 1) else fd)"

definition float_rem :: "real \<Rightarrow> real \<Rightarrow> real" where
  "float_rem vx wx =
     (let md = float_fmod vx wx
      in if md \<noteq> 0 \<and> (wx < 0) \<noteq> (md < 0) then fl (md + wx) else md)"

section \<open>Timestamps\<close>

text \<open>\<^verbatim>\<open>ms_to_srt_time\<close>, the same function in all four transcription scripts.\<close>

definition ms_to_srt_time :: "int \<Rightarrow> error + str" where
  "ms_to_srt_time milliseconds =
     (case int_truediv milliseconds 1000 of
        Inl e \<Rightarrow> Inl e
      | Inr seconds \<Rightarrow>
          let hours = py_int (float_floordiv seconds 3600);
              minutes = py_int (float_floordiv (float_rem seconds 3600) 60);
              secs = py_int (float_rem seconds 60);
              millis = milliseconds mod 1000
          in Inr (format_0d 2 hours @ lit '':'' @ format_0d 2 minutes @ lit '':''
                  @ format_0d 2 secs @ lit '','' @ format_0d 3 millis))"

text \<open>\<^verbatim>\<open>ms_to_vtt_time\<close>, likewise the same in all four scripts.\<close>

definition ms_to_vtt_time :: "int \<Rightarrow> error + str" where
  "ms_to_vtt_time milliseconds =
     (case int_truediv milliseconds 1000 of
        Inl e \<Rightarrow> Inl e
      | Inr seconds \<Rightarrow>
          let hours = py_int (float_floordiv seconds 3600);
              minutes = py_int (float_floordiv (float_rem seconds 3600) 60);
              secs = py_int (float_rem seconds 60);
              millis = milliseconds mod 1000
          in Inr (if 0 < hours
                  then format_0d 2 hours @ lit '':'' @ format_0d 2 minutes @ lit ''.''
                       @ format_0d 3 millis
                  else format_0d 2 minutes @ lit '':'' @ format_0d 2 secs @ lit ''.''
                       @ format_0d 3 millis))"

section \<open>GPU thermal protection\<close>

text \<open>
  What one call of \<^verbatim>\<open>check_gpu_and_pause\<close> sees of the NVML driver: whether
  \<^verbatim>\<open>nvmlInit\<close>, \<^verbatim>\<open>nvmlDeviceGetHandleByIndex\<close> and \<^verbatim>\<open>nvmlShutdown\<close> raise
  \<^verbatim>\<open>NVMLError\<close>, and what the \<open>i\<close>-th temperature and utilization queries of the
  polling loop return (\<open>None\<close>: the query raises \<^verbatim>\<open>NVMLError\<close>).
\<close>

record nvml =
  init_fails :: bool
  handle_fails :: bool
  temperature :: "nat \<Rightarrow> int option"
  utilization :: "nat \<Rightarrow> int option"
  shutdown_fails :: bool

text \<open>The calls the function makes, in the order it makes them.\<close>

datatype gpu_event =
    Init
  | GetHandleByIndex
  | GetTemperature
  | GetUtilizationRates
  | LogWarning int int int
  | Sleep int
  | Shutdown

text \<open>
  The \<^verbatim>\<open>while True\<close> loop.  The result is the calls made and the exception that ended
  the loop, if any; \<open>None\<close> is a loop that never ends.  \<^verbatim>\<open>time.sleep\<close> raises
  \<^verbatim>\<open>ValueError\<close> for a negative length (an upper limit on the length, which depends on
  the platform, is not modelled).
\<close>

partial_function (option) poll_loop ::
  "nvml \<Rightarrow> int \<Rightarrow> int \<Rightarrow> int \<Rightarrow> nat \<Rightarrow> gpu_event list
    \<Rightarrow> (gpu_event list \<times> error option) option" where
  "poll_loop g temp_threshold load_threshold pause_time i tr =
     (case temperature g i of
        None \<Rightarrow> Some (tr @ [GetTemperature], Some NVMLError)
      | Some temp \<Rightarrow>
          (case utilization g i of
             None \<Rightarrow> Some (tr @ [GetTemperature, GetUtilizationRates], Some NVMLError)
           | Some util \<Rightarrow>
               if temp_threshold < temp \<and> load_threshold < util then
                 if pause_time < 0 then
                   Some (tr @ [GetTemperature, GetUtilizationRates,
                               LogWarning temp util pause_time], Some ValueError)
                 else
                   poll_loop g temp_threshold load_threshold pause_time (Suc i)
                     (tr @ [GetTemperature, GetUtilizationRates,
                            LogWarning temp util pause_time, Sleep pause_time])
               else Some (tr @ [GetTemperature, GetUtilizationRates], None)))"

declare poll_loop.simps [code]

text \<open>
  The \<^verbatim>\<open>try\<close> block, its \<^verbatim>\<open>except pynvml.NVMLError: pass\<close> and its \<^verbatim>\<open>finally\<close>, which
  calls \<^verbatim>\<open>nvmlShutdown\<close> and discards whatever that raises.
\<close>

definition try_body ::
  "nvml \<Rightarrow> int \<Rightarrow> int \<Rightarrow> int \<Rightarrow> (gpu_event list \<times> error option) option" where
  "try_body g temp_threshold load_threshold pause_time =
     (if init_fails g then Some ([Init], Some NVMLError)
      else if handle_fails g then Some ([Init, GetHandleByIndex], Some NVMLError)
      else poll_loop g temp_threshold load_threshold pause_time 0 [Init, GetHandleByIndex])"

definition check_gpu_and_pause ::
  "nvml \<Rightarrow> int \<Rightarrow> int \<Rightarrow> int \<Rightarrow> (gpu_event list \<times> error option) option" where
  "check_gpu_and_pause g temp_threshold load_threshold pause_time =
     (case try_body g temp_threshold load_threshold pause_time of
        None \<Rightarrow> None
      | Some (tr, exc) \<Rightarrow>
          Some (tr @ [Shutdown], if exc = Some NVMLError then None else exc))"

text \<open>A driver that never fails and returns the readings \<open>r 0\<close>, \<open>r 1\<close>, ...\<close>

definition gpu_of_readings :: "(nat \<Rightarrow> int \<times> int) \<Rightarrow> nvml" where
  "gpu_of_readings r =
     \<lparr>init_fails = False, handle_fails = False,
      temperature = (\<lambda>i. Some (fst (r i))), utilization = (\<lambda>i. Some (snd (r i))),
      shutdown_fails = False\<rparr>"

text \<open>The condition of the source under which the loop pauses.\<close>

definition exceeds :: "int \<Rightarrow> int \<Rightarrow> int \<times> int \<Rightarrow> bool" where
  "exceeds temp_threshold load_threshold rd \<longleftrightarrow>
     temp_threshold < fst rd \<and> load_threshold < snd rd"

text \<open>The calls of one round of the loop that pauses.\<close>

definition paused_round :: "int \<Rightarrow> int \<times> int \<Rightarrow> gpu_event list" where
  "paused_round pause_time rd =
     [GetTemperature, GetUtilizationRates, LogWarning (fst rd) (snd rd) pause_time,
      Sleep pause_time]"

text \<open>Poll \<open>j\<close> succeeds and finds both quantities above their thresholds.\<close>

definition hot_poll :: "nvml \<Rightarrow> int \<Rightarrow> int \<Rightarrow> nat \<Rightarrow> bool" where
  "hot_poll g T L j \<longleftrightarrow>
     (\<exists>t u. temperature g j = Some t \<and> utilization g j = Some u \<and> T < t \<and> L < u)"

section \<open>Segments and the batch writers\<close>

text \<open>
  A segment returned by the speech recognition model: start and end time in seconds
  (finite floats) and the recognised text.
\<close>

record segment =
  seg_start :: real
  seg_end :: real
  seg_text :: str

text \<open>
  \<^verbatim>\<open>int(t * 1000)\<close>: the product is rounded to a float; \<^verbatim>\<open>int\<close> raises
  \<^verbatim>\<open>OverflowError\<close> on an infinity.
\<close>

definition to_ms :: "real \<Rightarrow> error + int" where
  "to_ms t =
     (let x = fl (t * 1000)
      in if float_overflow x then Inl OverflowError else Inr (py_int x))"

definition tsv_header :: str where
  "tsv_header = lit ''start'' @ TAB @ lit ''end'' @ TAB @ lit ''text'' @ NL"

definition vtt_header :: str where
  "vtt_header = lit ''WEBVTT'' @ NL @ NL"

text \<open>
  The writers of \<^verbatim>\<open>transcript_fw_mp4.py\<close>.  Each opens its file with the platform's
  preferred encoding \<open>enc\<close>; the result is the text of the finished file, or the
  exception that ended the writer.  The loops carry the text written so far.
\<close>

fun save_txt_loop :: "encoding \<Rightarrow> segment list \<Rightarrow> str \<Rightarrow> error + str" where
  "save_txt_loop enc [] f = Inr f"
| "save_txt_loop enc (segment # segments) f =
     bind_err (file_write enc f (strip (seg_text segment) @ lit '' ''))
       (\<lambda>f'. save_txt_loop enc segments f')"

definition save_txt :: "encoding \<Rightarrow> segment list \<Rightarrow> error + str" where
  "save_txt enc segments = save_txt_loop enc segments []"

text \<open>
  \<^verbatim>\<open>save_tsv\<close> of \<^verbatim>\<open>transcript_fw_mp4.py\<close>; the function of the same name in
  \<^verbatim>\<open>transcribe.py\<close> and \<^verbatim>\<open>transcribe_mp4.py\<close> differs only in reading the segment's
  fields from a dictionary.
\<close>

fun save_tsv_loop :: "encoding \<Rightarrow> segment list \<Rightarrow> str \<Rightarrow> error + str" where
  "save_tsv_loop enc [] f = Inr f"
| "save_tsv_loop enc (segment # segments) f =
     bind_err (to_ms (seg_start segment)) (\<lambda>start_ms.
     bind_err (to_ms (seg_end segment)) (\<lambda>end_ms.
     bind_err (file_write enc f
         (str_int start_ms @ TAB @ str_int end_ms @ TAB @ strip (seg_text segment) @ NL))
       (\<lambda>f'. save_tsv_loop enc segments f')))"

definition save_tsv :: "encoding \<Rightarrow> segment list \<Rightarrow> error + str" where
  "save_tsv enc segments =
     bind_err (file_write enc [] tsv_header) (\<lambda>f. save_tsv_loop enc segments f)"

text \<open>
  A row of the TSV file as the specification describes it: the times truncated to
  whole milliseconds, \<open>int\<close> of the time times 1000, and the stripped text, separated
  by tabs.
\<close>

definition ms_of :: "real \<Rightarrow> int" where
  "ms_of t = py_int (fl (t * 1000))"

definition tsv_row :: "segment \<Rightarrow> str" where
  "tsv_row segment =
     str_int (ms_of (seg_start segment)) @ TAB @ str_int (ms_of (seg_end segment)) @ TAB
     @ strip (seg_text segment)"

fun save_srt_loop :: "encoding \<Rightarrow> nat \<Rightarrow> segment list \<Rightarrow> str \<Rightarrow> error + str" where
  "save_srt_loop enc i [] f = Inr f"
| "save_srt_loop enc i (segment # segments) f =
     bind_err (to_ms (seg_start segment)) (\<lambda>start_ms.
     bind_err (ms_to_srt_time start_ms) (\<lambda>start_time.
     bind_err (to_ms (seg_end segment)) (\<lambda>end_ms.
     bind_err (ms_to_srt_time end_ms) (\<lambda>end_time.
     bind_err (file_write enc f
         (str_int (int i) @ NL @ start_time @ lit '' --> '' @ end_time @ NL
          @ strip (seg_text segment) @ NL @ NL))
       (\<lambda>f'. save_srt_loop enc (Suc i) segments f')))))"

definition save_srt :: "encoding \<Rightarrow> segment list \<Rightarrow> error + str" where
  "save_srt enc segments = save_srt_loop enc 1 segments []"

fun save_vtt_loop :: "encoding \<Rightarrow> segment list \<Rightarrow> str \<Rightarrow> error + str" where
  "save_vtt_loop enc [] f = Inr f"
| "save_vtt_loop enc (segment # segments) f =
     bind_err (to_ms (seg_start segment)) (\<lambda>start_ms.
     bind_err (ms_to_vtt_time start_ms) (\<lambda>start_time.
     bind_err (to_ms (seg_end segment)) (\<lambda>end_ms.
     bind_err (ms_to_vtt_time end_ms) (\<lambda>end_time.
     bind_err (file_write enc f
         (start_time @ lit '' --> '' @ end_time @ NL @ strip (seg_text segment) @ NL @ NL))
       (\<lambda>f'. save_vtt_loop enc segments f')))))"

definition save_vtt :: "encoding \<Rightarrow> segment list \<Rightarrow> error + str" where
  "save_vtt enc segments =
     bind_err (file_write enc [] vtt_header) (\<lambda>f. save_vtt_loop enc segments f)"

section \<open>The incremental transcription loop\<close>

text \<open>
  The \<^verbatim>\<open>with open(...)\<close> block of \<^verbatim>\<open>transcript_fw_mp4_opt.py\<close>.  Its observable
  steps are the thermal checks and the writes and flushes on the four files, all of
  which are opened with \<^verbatim>\<open>encoding='utf-8'\<close>.
\<close>

datatype out_file = Txt | Tsv | Srt | Vtt

datatype event =
    CheckGpu "gpu_event list"
  | Write out_file str
  | Flush out_file

record args =
  arg_device :: str
  arg_temp_limit :: int
  arg_load_limit :: int
  arg_pause_time :: int

text \<open>A step yields the events it caused and either a value or the exception raised.\<close>

definition and_then ::
  "event list \<times> (error + 'a) \<Rightarrow> ('a \<Rightarrow> event list \<times> (error + 'b))
    \<Rightarrow> event list \<times> (error + 'b)" where
  "and_then m f =
     (case m of
        (tr, Inl e) \<Rightarrow> (tr, Inl e)
      | (tr, Inr x) \<Rightarrow> (case f x of (tr', r) \<Rightarrow> (tr @ tr', r)))"

definition compute :: "error + 'a \<Rightarrow> event list \<times> (error + 'a)" where
  "compute m = ([], m)"

text \<open>\<^verbatim>\<open>f.write(s)\<close> followed by \<^verbatim>\<open>f.flush()\<close> on one of the four files.\<close>

definition write_flush :: "out_file \<Rightarrow> str \<Rightarrow> event list \<times> (error + unit)" where
  "write_flush f s =
     (case encode UTF8 s of
        Inl e \<Rightarrow> ([], Inl e)
      | Inr _ \<Rightarrow> ([Write f s, Flush f], Inr ()))"

text \<open>
  The body of the loop after the thermal check.  (The trailing \<^verbatim>\<open>logger.debug\<close> call
  formats the two times once more, and the progress bar is updated; neither touches
  the four files.)
\<close>

definition process_segment :: "nat \<Rightarrow> segment \<Rightarrow> event list \<times> (error + unit)" where
  "process_segment i segment =
     (let text = strip (seg_text segment) in
      and_then (compute (to_ms (seg_start segment))) (\<lambda>start_ms.
      and_then (compute (to_ms (seg_end segment))) (\<lambda>end_ms.
      and_then (write_flush Txt (text @ lit '' '')) (\<lambda>_.
      and_then (write_flush Tsv (str_int start_ms @ TAB @ str_int end_ms @ TAB @ text @ NL))
        (\<lambda>_.
      and_then (compute (ms_to_srt_time start_ms)) (\<lambda>start_srt.
      and_then (compute (ms_to_srt_time end_ms)) (\<lambda>end_srt.
      and_then (write_flush Srt
          (str_int (int i) @ NL @ start_srt @ lit '' --> '' @ end_srt @ NL @ text @ NL @ NL))
        (\<lambda>_.
      and_then (compute (ms_to_vtt_time start_ms)) (\<lambda>start_vtt.
      and_then (compute (ms_to_vtt_time end_ms)) (\<lambda>end_vtt.
      write_flush Vtt
          (start_vtt @ lit '' --> '' @ end_vtt @ NL @ text @ NL @ NL)))))))))))"

text \<open>
  The thermal check at the head of the loop body: made when \<^verbatim>\<open>args.device == "cuda"\<close>.
  \<open>gpus i\<close> is the NVML driver as the check for segment \<open>i\<close> finds it.
\<close>

definition thermal_check ::
  "(nat \<Rightarrow> nvml) \<Rightarrow> args \<Rightarrow> nat \<Rightarrow> (event list \<times> error option) option" where
  "thermal_check gpus a i =
     (if arg_device a = lit ''cuda'' then
        (case check_gpu_and_pause (gpus i) (arg_temp_limit a) (arg_load_limit a)
                (arg_pause_time a) of
           None \<Rightarrow> None
         | Some (tr, exc) \<Rightarrow> Some ([CheckGpu tr], exc))
      else Some ([], None))"

text \<open>
  \<^verbatim>\<open>for i, segment in enumerate(segments, 1)\<close>.  The result is the events of the loop
  and the exception that ended it, if any; \<open>None\<close> when a thermal check never returns.
\<close>

fun transcribe_loop ::
  "(nat \<Rightarrow> nvml) \<Rightarrow> args \<Rightarrow> nat \<Rightarrow> segment list
    \<Rightarrow> (event list \<times> error option) option" where
  "transcribe_loop gpus a i [] = Some ([], None)"
| "transcribe_loop gpus a i (segment # segments) =
     (case thermal_check gpus a i of
        None \<Rightarrow> None
      | Some (ev, Some e) \<Rightarrow> Some (ev, Some e)
      | Some (ev, None) \<Rightarrow>
          (case process_segment i segment of
             (ws, Inl e) \<Rightarrow> Some (ev @ ws, Some e)
           | (ws, Inr _) \<Rightarrow>
               (case transcribe_loop gpus a (Suc i) segments of
                  None \<Rightarrow> None
                | Some (rest, exc) \<Rightarrow> Some (ev @ ws @ rest, exc))))"


text \<open>The text that a sequence of events has written to a file.\<close>

fun written :: "out_file \<Rightarrow> event list \<Rightarrow> str" where
  "written f [] = []"
| "written f (Write g s # es) = (if g = f then s @ written f es else written f es)"
| "written f (e # es) = written f es"




section \<open>The scripts\<close>
















section \<open>Sample inputs\<close>

text \<open>A driver whose second temperature query fails, as does its shutdown.\<close>

definition failing_gpu :: nvml where
  "failing_gpu =
     \<lparr>init_fails = False, handle_fails = False,
      temperature = (\<lambda>i. if i < 1 then Some 80 else None),
      utilization = (\<lambda>i. Some 95), shutdown_fails = True\<rparr>"

text \<open>A segment whose text has a line feed in the middle.\<close>

definition two_line_segment :: segment where
  "two_line_segment = \<lparr>seg_start = 0, seg_end = 1, seg_text = [32, 97, 10, 98, 32]\<rparr>"

text \<open>Two segments; the second starts after 3.5 seconds and ends after an hour.\<close>

definition sample_segments :: "segment list" where
  "sample_segments =
     [\<lparr>seg_start = 0, seg_end = 7 / 2, seg_text = [32, 104, 105]\<rparr>,
      \<lparr>seg_start = 7 / 2, seg_end = 7201 / 2, seg_text = [32, 233, 32]\<rparr>]"

text \<open>A run on the CPU, and a driver that reports a cool and idle GPU.\<close>

definition cpu_args :: args where
  "cpu_args =
     \<lparr>arg_device = lit ''cpu'', arg_temp_limit = 55, arg_load_limit = 70, arg_pause_time = 90\<rparr>"

definition cuda_args :: args where
  "cuda_args =
     \<lparr>arg_device = lit ''cuda'', arg_temp_limit = 55, arg_load_limit = 70, arg_pause_time = 90\<rparr>"

definition idle_gpus :: "nat \<Rightarrow> nvml" where
  "idle_gpus i = gpu_of_readings (\<lambda>j. (40, 10))"




section \<open>Evaluation rules\<close>

lemma bit_length_nonpos: "n \<le> 0 \<Longrightarrow> bit_length n = 0"
  by (simp add: bit_length.simps)

lemma bit_length_pos: "0 < n \<Longrightarrow> bit_length n = Suc (bit_length (n div 2))"
  by (subst bit_length.simps) simp

lemma digits_small: "n < 10 \<Longrightarrow> digits n = [48 + nat n]"
  by (simp add: digits.simps)

lemma digits_large: "10 \<le> n \<Longrightarrow> digits n = digits (n div 10) @ [48 + nat (n mod 10)]"
  by (subst digits.simps) simp

text \<open>
  Evaluation of the floating-point functions on numerals: a \<open>let\<close> is unfolded once the
  bound term is a number (use with \<open>cong: let_weak_cong\<close>).
\<close>

lemma Let_frac: "Let (numeral a / numeral b :: real) f = f (numeral a / numeral b)"
  by (simp add: Let_def)

lemma Let_neg_frac:
  "Let (- (numeral a / numeral b) :: real) f = f (- (numeral a / numeral b))"
  by (simp add: Let_def)

lemmas float_cbv =
  fl_def ilog2_def round_half_even_def Let_frac Let_neg_frac bit_length_nonpos bit_length_pos
  float_overflow_def int_truediv_def py_int_def float_fmod_def float_floordiv_def
  float_rem_def

lemma replicate_num: "replicate (numeral k) x = x # replicate (pred_numeral k) x"
  by (simp add: numeral_eq_Suc)

lemmas text_eval =
  lit_def digits_small digits_large str_int_def zfill_def format_0d_def replicate_num

section \<open>Floating-point rounding of whole milliseconds\<close>

lemma bit_length_le: "n < 2 ^ k \<Longrightarrow> bit_length n \<le> k"
proof (induction k arbitrary: n)
  case 0
  then show ?case by (simp add: bit_length_nonpos)
next
  case (Suc k)
  show ?case
  proof (cases "n \<le> 0")
    case True
    then show ?thesis by (simp add: bit_length_nonpos)
  next
    case False
    from Suc.prems have "n div 2 < 2 ^ k" by simp
    from Suc.IH [OF this] False show ?thesis
      by (simp add: bit_length_pos)
  qed
qed

lemma ilog2_less:
  assumes "\<bar>x\<bar> < 2 ^ k" and "0 < k"
  shows "ilog2 x < int k"
proof (cases "1 \<le> \<bar>x\<bar>")
  case True
  from assms(1) have "\<lfloor>\<bar>x\<bar>\<rfloor> < 2 ^ k"
    by (simp add: floor_less_iff)
  from bit_length_le [OF this] True show ?thesis
    by (simp add: ilog2_def)
next
  case False
  with assms(2) show ?thesis
    by (simp add: ilog2_def)
qed

lemma bit_length_bounds:
  "0 < n \<Longrightarrow> 2 ^ (bit_length n - 1) \<le> n \<and> n < 2 ^ bit_length n"
proof (induction n rule: bit_length.induct)
  case (1 n)
  show ?case
  proof (cases "n = 1")
    case True
    then show ?thesis by (simp add: bit_length_pos bit_length_nonpos)
  next
    case False
    with 1(2) have h: "0 < n div 2" by simp
    with 1 have IH: "2 ^ (bit_length (n div 2) - 1) \<le> n div 2"
      "n div 2 < 2 ^ bit_length (n div 2)"
      by simp_all
    have b: "bit_length n = Suc (bit_length (n div 2))"
      using 1(2) by (simp add: bit_length_pos)
    have p: "0 < bit_length (n div 2)"
      using h by (simp add: bit_length_pos)
    then have "(2::int) ^ bit_length (n div 2) = 2 * 2 ^ (bit_length (n div 2) - 1)"
      by (cases "bit_length (n div 2)") simp_all
    with IH show ?thesis unfolding b by simp linarith
  qed
qed

text \<open>\<open>ilog2\<close> is the binary exponent of its argument.\<close>

lemma ilog2_bounds:
  assumes "x \<noteq> 0"
  shows "2 powi ilog2 x \<le> \<bar>x\<bar> \<and> \<bar>x\<bar> < 2 powi (ilog2 x + 1)"
proof (cases "1 \<le> \<bar>x\<bar>")
  case True
  define n where "n = \<lfloor>\<bar>x\<bar>\<rfloor>"
  have n: "0 < n" using True by (simp add: n_def)
  have nx: "real_of_int n \<le> \<bar>x\<bar>" "\<bar>x\<bar> < real_of_int n + 1"
    unfolding n_def by linarith+
  from bit_length_bounds [OF n] have
    b: "2 ^ (bit_length n - 1) \<le> n" "n + 1 \<le> 2 ^ bit_length n" by simp_all
  have bp: "0 < bit_length n" using n by (simp add: bit_length_pos)
  have i: "ilog2 x = int (bit_length n) - 1"
    using True by (simp add: ilog2_def n_def)
  have e1: "(2::real) powi (int (bit_length n) - 1) = 2 ^ (bit_length n - 1)"
    using bp by (simp add: power_int_def nat_diff_distrib')
  have e2: "(2::real) powi (int (bit_length n) - 1 + 1) = 2 ^ bit_length n"
    by (simp add: power_int_def)
  have r1: "(2::real) ^ (bit_length n - 1) = real_of_int (2 ^ (bit_length n - 1))"
    and r2: "(2::real) ^ bit_length n = real_of_int (2 ^ bit_length n)"
    by simp_all
  have "real_of_int (2 ^ (bit_length n - 1)) \<le> real_of_int n"
    using b(1) by (simp only: of_int_le_iff)
  then have lo: "2 ^ (bit_length n - 1) \<le> \<bar>x\<bar>"
    unfolding r1 using nx(1) by (rule order_trans)
  have "real_of_int (n + 1) \<le> real_of_int (2 ^ bit_length n)"
    using b(2) by (simp only: of_int_le_iff)
  moreover have "\<bar>x\<bar> < real_of_int (n + 1)" using nx(2) by simp
  ultimately have hi: "\<bar>x\<bar> < 2 ^ bit_length n"
    unfolding r2 by (rule less_le_trans [rotated])
  from lo hi show ?thesis unfolding i e1 e2 by simp
next
  case False
  define y where "y = 1 / \<bar>x\<bar>"
  have xp: "0 < \<bar>x\<bar>" using assms by simp
  have y1: "1 < y" using False xp by (simp add: y_def)
  define c where "c = \<lceil>y\<rceil>"
  have cy: "real_of_int c - 1 < y" "y \<le> real_of_int c"
    unfolding c_def by linarith+
  have c2: "0 < c - 1" using y1 cy(2) by linarith
  define b where "b = bit_length (c - 1)"
  from bit_length_bounds [OF c2] have
    bb: "2 ^ (b - 1) \<le> c - 1" "c \<le> 2 ^ b" by (simp_all add: b_def)
  have bp: "0 < b" using c2 by (simp add: b_def bit_length_pos)
  have i: "ilog2 x = - int b"
    using False by (simp add: ilog2_def b_def c_def y_def)
  have r1: "(2::real) ^ (b - 1) = real_of_int (2 ^ (b - 1))"
    and r2: "(2::real) ^ b = real_of_int (2 ^ b)"
    by simp_all
  have "real_of_int (2 ^ (b - 1)) \<le> real_of_int (c - 1)"
    using bb(1) by (simp only: of_int_le_iff)
  moreover have "real_of_int (c - 1) < y" using cy(1) by simp
  ultimately have lo: "2 ^ (b - 1) < y"
    unfolding r1 by (rule le_less_trans)
  have "real_of_int c \<le> real_of_int (2 ^ b)"
    using bb(2) by (simp only: of_int_le_iff)
  with cy(2) have hi: "y \<le> 2 ^ b"
    unfolding r2 by (rule order_trans)
  have x: "\<bar>x\<bar> = 1 / y" using xp by (simp add: y_def)
  have yp: "0 < y" using y1 by simp
  have e1: "(2::real) powi (- int b) = 1 / 2 ^ b"
    by (simp add: power_int_def field_simps)
  have e2: "(2::real) powi (- int b + 1) = 1 / 2 ^ (b - 1)"
    using bp by (cases b) (simp_all add: power_int_def field_simps)
  have "1 / 2 ^ b \<le> 1 / y" using hi yp by (simp add: frac_le)
  moreover have "1 / y < 1 / 2 ^ (b - 1)" using lo yp by (simp add: frac_less2)
  ultimately show ?thesis unfolding i e1 e2 x by simp
qed

lemma round_half_even_near: "\<bar>real_of_int (round_half_even y) - y\<bar> \<le> 1 / 2"
proof -
  have "real_of_int \<lfloor>y\<rfloor> \<le> y" "y < real_of_int \<lfloor>y\<rfloor> + 1" by linarith+
  then show ?thesis
    unfolding round_half_even_def Let_def by (simp split: if_splits)
qed

lemma round_half_even_of_int [simp]: "round_half_even (of_int n) = n"
  by (simp add: round_half_even_def)

lemma fl_scaled:
  assumes "x \<noteq> 0" and "\<bar>x\<bar> < 2 ^ k" and "0 < k" and "k \<le> 53"
  shows "\<exists>j. 53 \<le> j + k \<and> fl x = of_int (round_half_even (x * 2 ^ j)) / 2 ^ j"
proof -
  define e where "e = max (ilog2 x - 52) (- 1074)"
  have "e \<le> int k - 53"
    using ilog2_less [OF assms(2,3)] assms(4) by (simp add: e_def)
  then have e0: "e \<le> 0" using assms(4) by simp
  define j where "j = nat (- e)"
  have p: "(2::real) powi e = 1 / 2 ^ j"
    using e0 by (simp add: power_int_def j_def field_simps)
  have "fl x = of_int (round_half_even (x / 2 powi e)) * 2 powi e"
    using assms(1) by (simp add: fl_def e_def Let_def)
  then have "fl x = of_int (round_half_even (x * 2 ^ j)) / 2 ^ j"
    by (simp add: p)
  moreover have "53 \<le> j + k"
    using \<open>e \<le> int k - 53\<close> by (simp add: j_def)
  ultimately show ?thesis by blast
qed

lemma fl_of_int:
  assumes "\<bar>n\<bar> < 2 ^ 53"
  shows "fl (of_int n) = of_int n"
proof (cases "n = 0")
  case True
  then show ?thesis by (simp add: fl_def)
next
  case False
  then have nz: "real_of_int n \<noteq> 0" by simp
  have "real_of_int \<bar>n\<bar> < 2 ^ 53" using assms by simp
  then have lt: "\<bar>real_of_int n\<bar> < 2 ^ 53" by simp
  from fl_scaled [OF nz lt] obtain j where
    j: "fl (of_int n) = of_int (round_half_even (of_int n * 2 ^ j)) / 2 ^ j"
    by auto
  have "real_of_int n * 2 ^ j = of_int (n * 2 ^ j)" by simp
  then have "round_half_even (of_int n * 2 ^ j) = n * 2 ^ j"
    by (simp only: round_half_even_of_int)
  with j show ?thesis by simp
qed


lemma round_scaled_floor:
  assumes "0 \<le> m" and "500 < 2 ^ j * (1000 - m mod 1000)"
  shows "real_of_int (m div 1000)
           \<le> real_of_int (round_half_even (real_of_int m / 1000 * 2 ^ j)) / 2 ^ j
       \<and> real_of_int (round_half_even (real_of_int m / 1000 * 2 ^ j)) / 2 ^ j
           < real_of_int (m div 1000) + 1"
proof -
  define P :: int where "P = 2 ^ j"
  define k where "k = m div 1000"
  define q where "q = m mod 1000"
  define A where "A = k * P"
  define B where "B = q * P"
  define r where "r = round_half_even (real_of_int m / 1000 * 2 ^ j)"
  have Ppos: "0 < P" by (simp add: P_def)
  have m: "m = 1000 * k + q" by (simp add: k_def q_def)
  have mP: "m * P = 1000 * A + B"
    unfolding m A_def B_def by (simp add: algebra_simps)
  have "0 \<le> q" by (simp add: q_def)
  then have B0: "0 \<le> B" using Ppos by (simp add: B_def)
  have "500 < P * (1000 - q)"
    using assms(2) by (simp add: P_def q_def)
  then have hyp: "500 < 1000 * P - B"
    by (simp add: B_def algebra_simps)
  have eq: "real_of_int m / 1000 * 2 ^ j = real_of_int (m * P) / 1000"
    by (simp add: P_def)
  have "\<bar>real_of_int r - real_of_int m / 1000 * 2 ^ j\<bar> \<le> 1 / 2"
    unfolding r_def by (rule round_half_even_near)
  then have "\<bar>real_of_int r - real_of_int (m * P) / 1000\<bar> \<le> 1 / 2"
    by (simp only: eq)
  then have "\<bar>real_of_int (1000 * r - m * P)\<bar> \<le> 500"
    by (simp add: abs_le_iff field_simps)
  then have near: "\<bar>1000 * r - m * P\<bar> \<le> 500"
    by linarith
  have lo: "A \<le> r" using near mP B0 by linarith
  have hi: "r < A + P" using near mP hyp by linarith
  have P2: "real_of_int P = 2 ^ j" by (simp add: P_def)
  have "real_of_int A \<le> real_of_int r" using lo by simp
  then have "real_of_int (m div 1000) * 2 ^ j \<le> real_of_int r"
    by (simp add: A_def P2 k_def)
  then have 1: "real_of_int (m div 1000) \<le> real_of_int r / 2 ^ j"
    by (simp add: pos_le_divide_eq)
  have "real_of_int r < real_of_int (A + P)" using hi by (simp only: of_int_less_iff)
  then have "real_of_int r < (real_of_int (m div 1000) + 1) * 2 ^ j"
    by (simp add: A_def P2 k_def algebra_simps)
  then have 2: "real_of_int r / 2 ^ j < real_of_int (m div 1000) + 1"
    by (simp add: pos_divide_less_eq)
  from 1 2 show ?thesis by (simp add: r_def)
qed

lemma fl_ms_floor:
  assumes "0 \<le> m" and "m < 17592186044416999"
  shows "real_of_int (m div 1000) \<le> fl (real_of_int m / 1000)
       \<and> fl (real_of_int m / 1000) < real_of_int (m div 1000) + 1"
proof (cases "m = 0")
  case True
  then show ?thesis by (simp add: fl_def)
next
  case False
  with assms(1) have nz: "real_of_int m / 1000 \<noteq> 0" by simp
  have ab: "\<bar>real_of_int m / 1000\<bar> = real_of_int m / 1000"
    using assms(1) by simp
  show ?thesis
  proof (cases "m < 17592186044416000")
    case True
    then have "real_of_int m < 17592186044416000" by linarith
    then have lt: "\<bar>real_of_int m / 1000\<bar> < 2 ^ 44"
      unfolding ab by simp
    from fl_scaled [OF nz lt] obtain j where
      j: "53 \<le> j + 44" "fl (real_of_int m / 1000)
            = of_int (round_half_even (real_of_int m / 1000 * 2 ^ j)) / 2 ^ j"
      by auto
    from j(1) have "(2::int) ^ 9 \<le> 2 ^ j"
      by (intro power_increasing) auto
    moreover have "1 \<le> 1000 - m mod 1000"
      using pos_mod_bound [of 1000 m] by linarith
    ultimately have "2 ^ 9 * 1 \<le> 2 ^ j * (1000 - m mod 1000)"
      by (intro mult_mono) auto
    then have "500 < 2 ^ j * (1000 - m mod 1000)" by simp
    from round_scaled_floor [OF assms(1) this] j(2) show ?thesis by simp
  next
    case False
    then have ge: "17592186044416000 \<le> m" by simp
    have "real_of_int m < 17592186044416999" using assms(2) by linarith
    then have lt: "\<bar>real_of_int m / 1000\<bar> < 2 ^ 45"
      unfolding ab by simp
    from fl_scaled [OF nz lt] obtain j where
      j: "53 \<le> j + 45" "fl (real_of_int m / 1000)
            = of_int (round_half_even (real_of_int m / 1000 * 2 ^ j)) / 2 ^ j"
      by auto
    from j(1) have "(2::int) ^ 8 \<le> 2 ^ j"
      by (intro power_increasing) auto
    moreover have "2 \<le> 1000 - m mod 1000"
    proof -
      define d where "d = m - 17592186044416000"
      have d: "0 \<le> d" "d < 999" using ge assms(2) by (simp_all add: d_def)
      have "m = d + 1000 * 17592186044416" by (simp add: d_def)
      then have "m mod 1000 = (d + 1000 * 17592186044416) mod 1000" by simp
      also have "\<dots> = d mod 1000" by (rule mod_mult_self2)
      also have "\<dots> = d" using d by simp
      finally show ?thesis using d by simp
    qed
    ultimately have "2 ^ 8 * 2 \<le> 2 ^ j * (1000 - m mod 1000)"
      by (intro mult_mono) auto
    then have "500 < 2 ^ j * (1000 - m mod 1000)" by simp
    from round_scaled_floor [OF assms(1) this] j(2) show ?thesis by simp
  qed
qed


lemma py_int_of_int [simp]: "py_int (of_int q) = q"
  by (simp add: py_int_def)

lemma py_int_nonneg: "0 \<le> x \<Longrightarrow> py_int x = \<lfloor>x\<rfloor>"
  by (simp add: py_int_def)

lemma float_fmod_nonneg:
  assumes "0 \<le> S" and "0 < c"
  shows "float_fmod S (of_int c) = S - of_int c * of_int \<lfloor>S / of_int c\<rfloor>"
  using assms by (simp add: float_fmod_def py_int_nonneg)

lemma fmod_range:
  assumes "0 \<le> S" and "0 < c"
  shows "0 \<le> S - real_of_int c * of_int \<lfloor>S / of_int c\<rfloor>"
    and "S - real_of_int c * of_int \<lfloor>S / of_int c\<rfloor> < of_int c"
proof -
  have c: "0 < real_of_int c" using assms(2) by simp
  have "real_of_int \<lfloor>S / of_int c\<rfloor> * real_of_int c \<le> S / real_of_int c * real_of_int c"
    using c by (intro mult_right_mono of_int_floor_le) simp
  also have "\<dots> = S" using c by simp
  finally show "0 \<le> S - real_of_int c * of_int \<lfloor>S / of_int c\<rfloor>"
    by (simp add: mult.commute)
  have "S / real_of_int c < real_of_int \<lfloor>S / of_int c\<rfloor> + 1" by linarith
  then have "S / real_of_int c * real_of_int c
               < (real_of_int \<lfloor>S / of_int c\<rfloor> + 1) * real_of_int c"
    using c by (intro mult_strict_right_mono)
  then have "S < (of_int \<lfloor>S / of_int c\<rfloor> + 1) * real_of_int c"
    using c by simp
  then show "S - real_of_int c * of_int \<lfloor>S / of_int c\<rfloor> < of_int c"
    by (simp add: algebra_simps)
qed

lemma float_rem_nonneg:
  assumes "0 \<le> S" and "0 < c"
  shows "float_rem S (of_int c) = S - of_int c * of_int \<lfloor>S / of_int c\<rfloor>"
  using fmod_range(1) [OF assms] assms
  by (simp add: float_rem_def float_fmod_nonneg Let_def)

lemma float_floordiv_nonneg:
  assumes "0 \<le> S" and "S < 2 ^ 53" and "0 < c"
  shows "float_floordiv S (of_int c) = of_int \<lfloor>S / of_int c\<rfloor>"
proof -
  define q where "q = \<lfloor>S / real_of_int c\<rfloor>"
  define md where "md = S - real_of_int c * of_int q"
  have md: "float_fmod S (of_int c) = md"
    using assms by (simp add: float_fmod_nonneg md_def q_def)
  have md0: "0 \<le> md" unfolding md_def q_def by (rule fmod_range(1) [OF assms(1,3)])
  have q0: "0 \<le> q" using assms by (simp add: q_def)
  have cq: "real_of_int (c * q) \<le> S" using md0 by (simp add: md_def)
  then have "real_of_int (c * q) < 2 ^ 53" using assms(2) by linarith
  then have "real_of_int (c * q) < real_of_int (2 ^ 53)" by simp
  then have cq53: "c * q < 2 ^ 53" by (simp only: of_int_less_iff)
  have "0 \<le> c * q" using q0 assms(3) by simp
  with cq53 have 1: "fl (real_of_int (c * q)) = real_of_int (c * q)"
    by (intro fl_of_int) simp
  have "q * 1 \<le> q * c" using q0 assms(3) by (intro mult_left_mono) auto
  with cq53 q0 have 2: "fl (real_of_int q) = real_of_int q"
    by (intro fl_of_int) (simp add: mult.commute)
  have sub: "S - md = real_of_int (c * q)" by (simp add: md_def)
  have dv: "fl (fl (S - md) / real_of_int c) = real_of_int q"
  proof -
    have "fl (S - md) = real_of_int (c * q)" by (simp only: sub 1)
    moreover have "real_of_int (c * q) / real_of_int c = real_of_int q"
      using assms(3) by simp
    ultimately show ?thesis by (simp only: 2)
  qed
  have nc: "\<not> (md \<noteq> 0 \<and> (real_of_int c < 0) \<noteq> (md < 0))"
    using md0 assms(3) by simp
  have "float_floordiv S (real_of_int c) =
          (if 1 / 2 < fl (real_of_int q - real_of_int \<lfloor>real_of_int q\<rfloor>)
           then fl (real_of_int \<lfloor>real_of_int q\<rfloor> + 1)
           else real_of_int \<lfloor>real_of_int q\<rfloor>)"
    unfolding float_floordiv_def md Let_def dv by (simp only: nc if_False)
  also have "\<dots> = real_of_int q" by (simp add: fl_def)
  finally show ?thesis by (simp only: q_def)
qed

section \<open>The timestamp functions\<close>

lemma time_fields:
  assumes "0 \<le> m" and "m < 17592186044416999"
  defines "S \<equiv> fl (real_of_int m / 1000)"
  shows "int_truediv m 1000 = Inr S"
    and "py_int (float_floordiv S 3600) = m div 3600000"
    and "py_int (float_floordiv (float_rem S 3600) 60) = m div 60000 mod 60"
    and "py_int (float_rem S 60) = m div 1000 mod 60"
proof -
  define k where "k = m div 1000"
  have kS: "real_of_int k \<le> S" "S < real_of_int k + 1"
    using fl_ms_floor [OF assms(1,2)] by (simp_all add: S_def k_def)
  have k0: "0 \<le> k" using assms(1) by (simp add: k_def)
  have k1: "k < 17592186044417" using assms(2) by (simp add: k_def)
  have S0: "0 \<le> S" using kS(1) k0 by linarith
  have "S < 17592186044418" using kS(2) k1 by linarith
  then have S53: "S < 2 ^ 53" by simp
  have fS: "\<lfloor>S\<rfloor> = k" using kS by linarith
  have "\<not> float_overflow S"
    using S0 \<open>S < 17592186044418\<close> by (simp add: float_overflow_def)
  then show "int_truediv m 1000 = Inr S"
    by (simp add: int_truediv_def S_def Let_def)
  have fd: "\<lfloor>S / real_of_int c\<rfloor> = k div c" if "0 < c" for c
    using floor_divide_real_eq_div [of c S] that fS by simp
  have h: "float_floordiv S (real_of_int 3600) = of_int (k div 3600)"
    using float_floordiv_nonneg [OF S0 S53, of 3600] fd [of 3600] by simp
  have "k div 3600 = m div (1000 * 3600)"
    unfolding k_def by (rule zdiv_zmult2_eq [symmetric]) simp
  with h show "py_int (float_floordiv S 3600) = m div 3600000" by simp
  define R where "R = S - 3600 * real_of_int (k div 3600)"
  have R: "float_rem S (real_of_int 3600) = R"
    using float_rem_nonneg [OF S0, of 3600] fd [of 3600] by (simp add: R_def)
  have R0: "0 \<le> R" and R1: "R < 3600"
    using fmod_range [OF S0, of 3600] fd [of 3600] by (simp_all add: R_def)
  have fR: "\<lfloor>R\<rfloor> = k mod 3600"
  proof -
    have "\<lfloor>R\<rfloor> = \<lfloor>S - real_of_int (3600 * (k div 3600))\<rfloor>" by (simp add: R_def)
    also have "\<dots> = \<lfloor>S\<rfloor> - 3600 * (k div 3600)" by (rule floor_diff_of_int)
    also have "\<dots> = k mod 3600" unfolding fS by (simp add: minus_mult_div_eq_mod)
    finally show ?thesis .
  qed
  have R53: "R < 2 ^ 53" using R1 by simp
  have "float_floordiv R (real_of_int 60) = of_int \<lfloor>R / real_of_int 60\<rfloor>"
    by (rule float_floordiv_nonneg [OF R0 R53]) simp
  also have "\<lfloor>R / real_of_int 60\<rfloor> = k mod 3600 div 60"
    using floor_divide_real_eq_div [of 60 R] fR by simp
  finally have mi: "py_int (float_floordiv (float_rem S 3600) 60) = k mod 3600 div 60"
    using R by simp
  have "k mod (60 * 60) = 60 * (k div 60 mod 60) + k mod 60"
    by (rule zmod_zmult2_eq) simp
  then have "k mod 3600 div 60 = k div 60 mod 60" by simp
  also have "k div 60 = m div (1000 * 60)"
    unfolding k_def by (rule zdiv_zmult2_eq [symmetric]) simp
  finally show "py_int (float_floordiv (float_rem S 3600) 60) = m div 60000 mod 60"
    using mi by simp
  define Q where "Q = S - 60 * real_of_int (k div 60)"
  have Q: "float_rem S (real_of_int 60) = Q"
    using float_rem_nonneg [OF S0, of 60] fd [of 60] by (simp add: Q_def)
  have Q0: "0 \<le> Q"
    using fmod_range [OF S0, of 60] fd [of 60] by (simp_all add: Q_def)
  have "\<lfloor>Q\<rfloor> = \<lfloor>S - real_of_int (60 * (k div 60))\<rfloor>" by (simp add: Q_def)
  also have "\<dots> = \<lfloor>S\<rfloor> - 60 * (k div 60)" by (rule floor_diff_of_int)
  also have "\<dots> = k mod 60" unfolding fS by (simp add: minus_mult_div_eq_mod)
  finally have "py_int Q = k mod 60" using Q0 by (simp add: py_int_nonneg)
  with Q show "py_int (float_rem S 60) = m div 1000 mod 60" by (simp add: k_def)
qed

lemma read_decimal_snoc: "read_decimal (s @ [c]) = 10 * read_decimal s + (int c - 48)"
  by (simp add: read_decimal_def)

lemma read_decimal_digits: "0 \<le> n \<Longrightarrow> read_decimal (digits n) = n"
proof (induction n rule: digits.induct)
  case (1 n)
  show ?case
  proof (cases "n < 10")
    case True
    with 1(2) show ?thesis by (simp add: digits_small read_decimal_def)
  next
    case False
    then have "read_decimal (digits (n div 10)) = n div 10"
      using 1 by simp
    with False 1(2) show ?thesis
      by (simp add: digits_large read_decimal_snoc)
  qed
qed

lemma read_decimal_zeros: "read_decimal (replicate k 48 @ s) = read_decimal s"
  by (induction k) (simp_all add: read_decimal_def)

lemma read_decimal_format: "0 \<le> n \<Longrightarrow> read_decimal (format_0d w n) = n"
  by (simp add: format_0d_def zfill_def read_decimal_zeros read_decimal_digits)

lemma length_digits_pos: "0 < length (digits n)"
  by (subst digits.simps) simp

lemma length_digits_1: "n < 10 \<Longrightarrow> length (digits n) = 1"
  by (simp add: digits_small)

lemma length_digits_2: "10 \<le> n \<Longrightarrow> n < 100 \<Longrightarrow> length (digits n) = 2"
  by (simp add: digits_large length_digits_1)

lemma length_digits_3: "100 \<le> n \<Longrightarrow> n < 1000 \<Longrightarrow> length (digits n) = 3"
  by (simp add: digits_large [of n] length_digits_2)

lemma length_format_2: "0 \<le> n \<Longrightarrow> n < 100 \<Longrightarrow> length (format_0d 2 n) = 2"
  using length_digits_1 [of n] length_digits_2 [of n]
  by (cases "n < 10") (simp_all add: format_0d_def zfill_def)

lemma length_format_3: "0 \<le> n \<Longrightarrow> n < 1000 \<Longrightarrow> length (format_0d 3 n) = 3"
  using length_digits_1 [of n] length_digits_2 [of n] length_digits_3 [of n]
  by (cases "n < 10"; cases "n < 100") (simp_all add: format_0d_def zfill_def)

lemma length_format_ge: "0 \<le> n \<Longrightarrow> w \<le> length (format_0d w n)"
  by (simp add: format_0d_def zfill_def)

text \<open>
  C4 (as amended): for every integer \<open>m\<close> with \<open>0 \<le> m \<le> 17592186044416998\<close>,
  \<^verbatim>\<open>ms_to_srt_time(m)\<close> returns \<^verbatim>\<open>HH:MM:SS,mmm\<close> with \<open>HH = \<lfloor>m / 3600000\<rfloor>\<close> padded with
  zeros to at least two digits, \<open>MM = \<lfloor>m / 60000\<rfloor> mod 60\<close> and
  \<open>SS = \<lfloor>m / 1000\<rfloor> mod 60\<close> in two digits and \<open>mmm = m mod 1000\<close> in three; the four
  printed numbers recombine to \<open>m\<close> milliseconds.
\<close>

theorem ms_to_srt_time_fields:
  assumes "0 \<le> m" and "m < 17592186044416999"
  shows "ms_to_srt_time m =
           Inr (format_0d 2 (m div 3600000) @ lit '':'' @ format_0d 2 (m div 60000 mod 60)
                @ lit '':'' @ format_0d 2 (m div 1000 mod 60) @ lit '','' 
                @ format_0d 3 (m mod 1000))
       \<and> 2 \<le> length (format_0d 2 (m div 3600000))
       \<and> length (format_0d 2 (m div 60000 mod 60)) = 2
       \<and> length (format_0d 2 (m div 1000 mod 60)) = 2
       \<and> length (format_0d 3 (m mod 1000)) = 3
       \<and> read_decimal (format_0d 2 (m div 3600000)) * 3600000
           + read_decimal (format_0d 2 (m div 60000 mod 60)) * 60000
           + read_decimal (format_0d 2 (m div 1000 mod 60)) * 1000
           + read_decimal (format_0d 3 (m mod 1000)) = m"
proof -
  note f = time_fields [OF assms]
  have 1: "ms_to_srt_time m =
           Inr (format_0d 2 (m div 3600000) @ lit '':'' @ format_0d 2 (m div 60000 mod 60)
                @ lit '':'' @ format_0d 2 (m div 1000 mod 60) @ lit '','' 
                @ format_0d 3 (m mod 1000))"
    unfolding ms_to_srt_time_def f(1) by (simp only: sum.case Let_def f)
  have h0: "0 \<le> m div 3600000" using assms(1) by simp
  have 2: "2 \<le> length (format_0d 2 (m div 3600000))"
    by (rule length_format_ge [OF h0])
  have 3: "length (format_0d 2 (m div 60000 mod 60)) = 2"
    by (rule length_format_2) simp_all
  have 4: "length (format_0d 2 (m div 1000 mod 60)) = 2"
    by (rule length_format_2) simp_all
  have 5: "length (format_0d 3 (m mod 1000)) = 3"
    by (rule length_format_3) simp_all
  have a: "m div 3600000 * 3600000 = m - m mod 3600000"
    by (simp add: algebra_simps minus_mod_eq_mult_div)
  have "m mod (60000 * 60) = 60000 * (m div 60000 mod 60) + m mod 60000"
    by (rule zmod_zmult2_eq) simp
  then have b: "m div 60000 mod 60 * 60000 = m mod 3600000 - m mod 60000" by simp
  have "m mod (1000 * 60) = 1000 * (m div 1000 mod 60) + m mod 1000"
    by (rule zmod_zmult2_eq) simp
  then have c: "m div 1000 mod 60 * 1000 = m mod 60000 - m mod 1000" by simp
  have 6: "read_decimal (format_0d 2 (m div 3600000)) * 3600000
           + read_decimal (format_0d 2 (m div 60000 mod 60)) * 60000
           + read_decimal (format_0d 2 (m div 1000 mod 60)) * 1000
           + read_decimal (format_0d 3 (m mod 1000)) = m"
    using h0 by (simp add: read_decimal_format a b c)
  from 1 2 3 4 5 6 show ?thesis by blast
qed

lemma ms_to_vtt_time_fields:
  assumes "0 \<le> m" and "m < 17592186044416999"
  shows "ms_to_vtt_time m =
           Inr (if 0 < m div 3600000
                then format_0d 2 (m div 3600000) @ lit '':'' @ format_0d 2 (m div 60000 mod 60)
                     @ lit ''.'' @ format_0d 3 (m mod 1000)
                else format_0d 2 (m div 60000 mod 60) @ lit '':''
                     @ format_0d 2 (m div 1000 mod 60) @ lit ''.'' @ format_0d 3 (m mod 1000))"
proof -
  note f = time_fields [OF assms]
  show ?thesis
    unfolding ms_to_vtt_time_def f(1) by (simp only: sum.case Let_def f)
qed

theorem ms_to_srt_time_fields_witness:
  "ms_to_srt_time 3725250 = Inr (lit ''01:02:05,250'')
   \<and> read_decimal (lit ''01'') * 3600000 + read_decimal (lit ''02'') * 60000
       + read_decimal (lit ''05'') * 1000 + read_decimal (lit ''250'') = 3725250"
  using ms_to_srt_time_fields [of 3725250]
  by (simp add: text_eval)

text \<open>
  At \<open>m = 17592186044416999\<close> the quotient \<open>m / 1000\<close> rounds up to the next whole
  number of seconds, and the function prints 17 seconds where \<open>\<lfloor>m / 1000\<rfloor> mod 60 = 16\<close>.
\<close>

theorem ms_to_srt_time_large_counterexample:
  "ms_to_srt_time 17592186044416999 = Inr (lit ''4886718345:40:17,999'')
   \<and> (17592186044416999 :: int) div 1000 mod 60 = 16"
  by (simp add: ms_to_srt_time_def float_cbv text_eval cong: let_weak_cong)

text \<open>
  C10: \<^verbatim>\<open>ms_to_vtt_time\<close> is not injective: 65250 ms (below one hour) and 3900250 ms
  (above one hour) both give \<^verbatim>\<open>01:05.250\<close>.
\<close>

theorem ms_to_vtt_time_not_injective:
  "ms_to_vtt_time 65250 = Inr (lit ''01:05.250'')
   \<and> ms_to_vtt_time 3900250 = Inr (lit ''01:05.250'')
   \<and> (\<exists>a b. 0 \<le> a \<and> a < 3600000 \<and> 3600000 \<le> b \<and> a \<noteq> b
          \<and> ms_to_vtt_time a = ms_to_vtt_time b)"
proof -
  have a: "ms_to_vtt_time 65250 = Inr (lit ''01:05.250'')"
    using ms_to_vtt_time_fields [of 65250] by (simp add: text_eval)
  have b: "ms_to_vtt_time 3900250 = Inr (lit ''01:05.250'')"
    using ms_to_vtt_time_fields [of 3900250] by (simp add: text_eval)
  have "(0::int) \<le> 65250 \<and> (65250::int) < 3600000 \<and> (3600000::int) \<le> 3900250
        \<and> (65250::int) \<noteq> 3900250 \<and> ms_to_vtt_time 65250 = ms_to_vtt_time 3900250"
    using a b by simp
  then have "\<exists>a b. 0 \<le> a \<and> a < 3600000 \<and> 3600000 \<le> b \<and> a \<noteq> b
          \<and> ms_to_vtt_time a = ms_to_vtt_time b"
    by blast
  with a b show ?thesis by blast
qed

text \<open>
  C5: from one hour on the function prints hours, minutes and milliseconds and drops
  the seconds, so the time cannot be read back: 1:01:01.250 and 1:01:00.250 both
  give \<^verbatim>\<open>01:01.250\<close>.
\<close>

theorem ms_to_vtt_time_drops_seconds:
  "ms_to_vtt_time 3661250 = Inr (lit ''01:01.250'')
   \<and> ms_to_vtt_time 3660250 = Inr (lit ''01:01.250'')"
  using ms_to_vtt_time_fields [of 3661250] ms_to_vtt_time_fields [of 3660250]
  by (simp add: text_eval)

section \<open>The thermal check\<close>

lemma poll_loop_skip:
  assumes "0 \<le> p"
    and "\<forall>j<k. temperature g (i + j) = Some (fst (r (i + j)))
             \<and> utilization g (i + j) = Some (snd (r (i + j)))
             \<and> exceeds T L (r (i + j))"
  shows "poll_loop g T L p i tr =
         poll_loop g T L p (i + k) (tr @ concat (map (\<lambda>j. paused_round p (r j)) [i..<i + k]))"
  using assms(2)
proof (induction k arbitrary: i tr)
  case 0
  then show ?case by simp
next
  case (Suc k)
  from Suc.prems have h0: "temperature g i = Some (fst (r i))"
    "utilization g i = Some (snd (r i))" "exceeds T L (r i)"
    by (metis add.right_neutral zero_less_Suc)+
  have rest: "\<forall>j<k. temperature g (Suc i + j) = Some (fst (r (Suc i + j)))
             \<and> utilization g (Suc i + j) = Some (snd (r (Suc i + j)))
             \<and> exceeds T L (r (Suc i + j))"
    using Suc.prems by (metis Suc_less_eq add_Suc_right add_Suc)
  have step: "poll_loop g T L p i tr = poll_loop g T L p (Suc i) (tr @ paused_round p (r i))"
    using h0 assms(1)
    by (subst poll_loop.simps) (simp add: exceeds_def paused_round_def)
  have "[i..<i + Suc k] = i # [Suc i..<Suc i + k]"
    by (simp add: upt_conv_Cons)
  then show ?case
    using Suc.IH [OF rest, of "tr @ paused_round p (r i)"] step by simp
qed


lemma hot_poll_readings [simp]:
  "hot_poll (gpu_of_readings r) T L j \<longleftrightarrow> T < fst (r j) \<and> L < snd (r j)"
  by (simp add: hot_poll_def gpu_of_readings_def)

lemma poll_loop_stops:
  assumes "0 \<le> p \<or> k = 0"
    and "\<forall>j<k. temperature g j = Some (fst (r j)) \<and> utilization g j = Some (snd (r j))
             \<and> exceeds T L (r j)"
  shows "poll_loop g T L p 0 tr =
         poll_loop g T L p k (tr @ concat (map (\<lambda>j. paused_round p (r j)) [0..<k]))"
proof (cases "k = 0")
  case True
  then show ?thesis by simp
next
  case False
  with assms(1) have "0 \<le> p" by simp
  from poll_loop_skip [OF this, of k g 0 r T L tr] assms(2) show ?thesis by simp
qed





text \<open>
  C8: an \<^verbatim>\<open>NVMLError\<close> raised by \<^verbatim>\<open>nvmlInit\<close>, by \<^verbatim>\<open>nvmlDeviceGetHandleByIndex\<close> or
  by the temperature or utilization query of poll \<open>k\<close> (after \<open>k\<close> polls that paused) ends
  the function at once: it calls \<^verbatim>\<open>nvmlShutdown\<close> and returns normally, with no sleep
  after the failing call.  No run of the function propagates an \<^verbatim>\<open>NVMLError\<close>.
\<close>

theorem nvml_error_swallowed:
  assumes "0 \<le> pause_time \<or> k = 0"
    and "\<forall>i<k. temperature g i = Some (fst (r i)) \<and> utilization g i = Some (snd (r i))
             \<and> temp_threshold < fst (r i) \<and> load_threshold < snd (r i)"
  shows "(init_fails g \<longrightarrow>
            check_gpu_and_pause g temp_threshold load_threshold pause_time =
              Some ([Init, Shutdown], None))
       \<and> (\<not> init_fails g \<and> handle_fails g \<longrightarrow>
            check_gpu_and_pause g temp_threshold load_threshold pause_time =
              Some ([Init, GetHandleByIndex, Shutdown], None))
       \<and> (\<not> init_fails g \<and> \<not> handle_fails g \<and> temperature g k = None \<longrightarrow>
            check_gpu_and_pause g temp_threshold load_threshold pause_time =
              Some ([Init, GetHandleByIndex]
                    @ concat (map (\<lambda>i. paused_round pause_time (r i)) [0..<k])
                    @ [GetTemperature, Shutdown], None))
       \<and> (\<not> init_fails g \<and> \<not> handle_fails g \<and> temperature g k \<noteq> None
            \<and> utilization g k = None \<longrightarrow>
            check_gpu_and_pause g temp_threshold load_threshold pause_time =
              Some ([Init, GetHandleByIndex]
                    @ concat (map (\<lambda>i. paused_round pause_time (r i)) [0..<k])
                    @ [GetTemperature, GetUtilizationRates, Shutdown], None))
       \<and> (\<forall>tr exc. check_gpu_and_pause g temp_threshold load_threshold pause_time
                       = Some (tr, exc) \<longrightarrow> exc \<noteq> Some NVMLError)"
proof -
  have pre: "\<forall>j<k. temperature g j = Some (fst (r j)) \<and> utilization g j = Some (snd (r j))
             \<and> exceeds temp_threshold load_threshold (r j)"
    using assms(2) by (simp add: exceeds_def)
  note skip = poll_loop_stops [OF assms(1) pre, of "[Init, GetHandleByIndex]"]
  have c1: "init_fails g \<Longrightarrow>
            check_gpu_and_pause g temp_threshold load_threshold pause_time =
              Some ([Init, Shutdown], None)"
    by (simp add: check_gpu_and_pause_def try_body_def)
  have c2: "\<not> init_fails g \<and> handle_fails g \<Longrightarrow>
            check_gpu_and_pause g temp_threshold load_threshold pause_time =
              Some ([Init, GetHandleByIndex, Shutdown], None)"
    by (simp add: check_gpu_and_pause_def try_body_def)
  have c3: "check_gpu_and_pause g temp_threshold load_threshold pause_time =
              Some ([Init, GetHandleByIndex]
                    @ concat (map (\<lambda>i. paused_round pause_time (r i)) [0..<k])
                    @ [GetTemperature, Shutdown], None)"
    if "\<not> init_fails g \<and> \<not> handle_fails g \<and> temperature g k = None"
  proof -
    have "poll_loop g temp_threshold load_threshold pause_time k tr =
          Some (tr @ [GetTemperature], Some NVMLError)" for tr
      using that by (subst poll_loop.simps) simp
    with skip that show ?thesis
      by (simp add: check_gpu_and_pause_def try_body_def)
  qed
  have c4: "check_gpu_and_pause g temp_threshold load_threshold pause_time =
              Some ([Init, GetHandleByIndex]
                    @ concat (map (\<lambda>i. paused_round pause_time (r i)) [0..<k])
                    @ [GetTemperature, GetUtilizationRates, Shutdown], None)"
    if "\<not> init_fails g \<and> \<not> handle_fails g \<and> temperature g k \<noteq> None
            \<and> utilization g k = None"
  proof -
    have "poll_loop g temp_threshold load_threshold pause_time k tr =
          Some (tr @ [GetTemperature, GetUtilizationRates], Some NVMLError)" for tr
      using that by (subst poll_loop.simps) auto
    with skip that show ?thesis
      by (simp add: check_gpu_and_pause_def try_body_def)
  qed
  have c5: "exc \<noteq> Some NVMLError"
    if "check_gpu_and_pause g temp_threshold load_threshold pause_time = Some (tr, exc)"
    for tr exc
    using that by (auto simp: check_gpu_and_pause_def split: option.splits if_splits)
  from c1 c2 c3 c4 c5 show ?thesis by blast
qed

theorem nvml_error_swallowed_witness:
  "check_gpu_and_pause (failing_gpu\<lparr>init_fails := True\<rparr>) 55 70 60 = Some ([Init, Shutdown], None)
   \<and> check_gpu_and_pause (failing_gpu\<lparr>handle_fails := True\<rparr>) 55 70 60
       = Some ([Init, GetHandleByIndex, Shutdown], None)
   \<and> check_gpu_and_pause failing_gpu 55 70 60
       = Some ([Init, GetHandleByIndex, GetTemperature, GetUtilizationRates,
                LogWarning 80 95 60, Sleep 60, GetTemperature, Shutdown], None)"
  using nvml_error_swallowed [of 60 0 "failing_gpu\<lparr>init_fails := True\<rparr>" "\<lambda>i. (80, 95)" 55 70]
    nvml_error_swallowed [of 60 0 "failing_gpu\<lparr>handle_fails := True\<rparr>" "\<lambda>i. (80, 95)" 55 70]
    nvml_error_swallowed [of 60 1 failing_gpu "\<lambda>i. (80, 95)" 55 70]
  by (simp add: failing_gpu_def paused_round_def)

section \<open>Encodable text\<close>


lemma encodable_append [simp]:
  "encodable enc (x @ y) \<longleftrightarrow> encodable enc x \<and> encodable enc y"
  by (induction x) (auto simp: encodable_def split: sum.splits)

lemma encodable_Nil [simp]: "encodable enc []"
  by (simp add: encodable_def)

lemma file_write_iff:
  "file_write enc f s = Inr f' \<longleftrightarrow> encodable enc s \<and> f' = f @ s"
  by (auto simp: file_write_def encodable_def split: sum.splits)

lemma encodable_NL [simp]: "encodable enc NL"
  by (cases enc) (simp_all add: encodable_def NL_def)

lemma headers_encodable [simp]: "encodable enc tsv_header" "encodable enc vtt_header"
  by (cases enc; simp add: encodable_def tsv_header_def vtt_header_def lit_def TAB_def NL_def)+

lemma file_write_header [simp]:
  "file_write enc [] tsv_header = Inr tsv_header"
  "file_write enc [] vtt_header = Inr vtt_header"
  by (simp_all add: file_write_iff)

section \<open>The TSV writer\<close>

lemma bind_err_simps [simp]:
  "bind_err (Inl e) f = Inl e"
  "bind_err (Inr x) f = f x"
  by (simp_all add: bind_err_def)

lemma bind_err_Inr_iff:
  "bind_err m f = Inr y \<longleftrightarrow> (\<exists>x. m = Inr x \<and> f x = Inr y)"
  by (cases m) simp_all

lemma file_write_Inr_iff:
  "file_write enc f s = Inr f' \<longleftrightarrow> (\<exists>bs. encode enc s = Inr bs) \<and> f' = f @ s"
  by (auto simp: file_write_def split: sum.splits)

lemma to_ms_Inr_iff:
  "to_ms t = Inr a \<longleftrightarrow> \<not> float_overflow (fl (t * 1000)) \<and> a = ms_of t"
  by (auto simp: to_ms_def ms_of_def Let_def)

lemma save_tsv_loop_rows:
  "save_tsv_loop enc segments f = Inr f'
    \<Longrightarrow> f' = f @ concat (map (\<lambda>s. tsv_row s @ NL) segments)"
proof (induction segments arbitrary: f)
  case Nil
  then show ?case by simp
next
  case (Cons s segments)
  from Cons.prems obtain f1 where
    "save_tsv_loop enc segments f1 = Inr f'" and "f1 = f @ tsv_row s @ NL"
    by (auto simp: bind_err_Inr_iff file_write_Inr_iff to_ms_Inr_iff tsv_row_def)
  with Cons.IH [of f1] show ?case by simp
qed

lemma digits_set: "set (digits n) \<subseteq> {48..57}"
proof (induction n rule: digits.induct)
  case (1 n)
  show ?case
  proof (cases "n < 10")
    case True
    then show ?thesis by (auto simp: digits_small)
  next
    case False
    then have "nat (n mod 10) \<le> 9" by simp
    with False 1 show ?thesis by (auto simp: digits_large)
  qed
qed

lemma str_int_no_newline: "10 \<notin> set (str_int i)"
  using digits_set [of i] digits_set [of "- i"] by (auto simp: str_int_def)

lemma split_lines_line:
  "10 \<notin> set l \<Longrightarrow> split_lines (l @ NL @ rest) = l # split_lines rest"
  by (induction l) (auto simp: NL_def)

lemma split_lines_rows:
  assumes "\<forall>l\<in>set ls. 10 \<notin> set l"
  shows "split_lines (concat (map (\<lambda>l. l @ NL) ls)) = ls"
  using assms by (induction ls) (simp_all add: split_lines_line)

lemma tsv_row_no_newline:
  "10 \<notin> set (strip (seg_text s)) \<Longrightarrow> 10 \<notin> set (tsv_row s)"
  using str_int_no_newline by (simp add: tsv_row_def TAB_def)

lemma save_tsv_loop_completes:
  assumes "\<forall>s\<in>set segments. \<not> float_overflow (fl (seg_start s * 1000))
             \<and> \<not> float_overflow (fl (seg_end s * 1000)) \<and> encodable enc (tsv_row s)"
  shows "\<exists>f'. save_tsv_loop enc segments f = Inr f'"
  using assms
proof (induction segments arbitrary: f)
  case Nil
  then show ?case by simp
next
  case (Cons s segments)
  from Cons.prems have a: "to_ms (seg_start s) = Inr (ms_of (seg_start s))"
    and b: "to_ms (seg_end s) = Inr (ms_of (seg_end s))"
    by (simp_all add: to_ms_Inr_iff)
  from Cons.prems have e: "encodable enc (tsv_row s @ NL)"
    by simp
  from Cons.prems have "\<forall>s\<in>set segments. \<not> float_overflow (fl (seg_start s * 1000))
             \<and> \<not> float_overflow (fl (seg_end s * 1000)) \<and> encodable enc (tsv_row s)"
    by simp
  from Cons.IH [OF this, of "f @ tsv_row s @ NL"] obtain f' where
    f': "save_tsv_loop enc segments (f @ tsv_row s @ NL) = Inr f'" by blast
  have w: "file_write enc f
             (str_int (ms_of (seg_start s)) @ TAB @ str_int (ms_of (seg_end s)) @ TAB
              @ strip (seg_text s) @ NL) = Inr (f @ tsv_row s @ NL)"
    using e by (simp add: file_write_iff tsv_row_def)
  show ?case
    by (simp add: a b w f')
qed


text \<open>
  C6 (as amended): when \<^verbatim>\<open>save_tsv\<close> runs to completion, the file is the header
  \<^verbatim>\<open>start\<close>, \<^verbatim>\<open>end\<close>, \<^verbatim>\<open>text\<close> separated by tabs and ended by a line feed, followed
  for each segment, in input order, by its start and end time in whole milliseconds
  and its stripped text, separated by tabs and ended by a line feed.  These are
  exactly one line per segment when no stripped text contains a line feed.  The
  function runs to completion when no time overflows and the encoding of the file
  can represent every row.
\<close>

theorem save_tsv_rows:
  "(save_tsv enc segments = Inr f \<longrightarrow>
      f = tsv_header @ concat (map (\<lambda>s. tsv_row s @ NL) segments)
      \<and> ((\<forall>s\<in>set segments. 10 \<notin> set (strip (seg_text s)))
          \<longrightarrow> split_lines f
              = (lit ''start'' @ TAB @ lit ''end'' @ TAB @ lit ''text'')
                # map tsv_row segments))
   \<and> ((\<forall>s\<in>set segments. \<not> float_overflow (fl (seg_start s * 1000))
             \<and> \<not> float_overflow (fl (seg_end s * 1000)) \<and> encodable enc (tsv_row s))
       \<longrightarrow> (\<exists>f. save_tsv enc segments = Inr f))"
proof -
  have 1: "f = tsv_header @ concat (map (\<lambda>s. tsv_row s @ NL) segments)"
    if "save_tsv enc segments = Inr f"
  proof -
    from that have "save_tsv_loop enc segments tsv_header = Inr f"
      by (auto simp: save_tsv_def bind_err_Inr_iff file_write_Inr_iff)
    from save_tsv_loop_rows [OF this] show ?thesis .
  qed
  have 2: "split_lines f = (lit ''start'' @ TAB @ lit ''end'' @ TAB @ lit ''text'')
          # map tsv_row segments"
    if "save_tsv enc segments = Inr f"
      and "\<forall>s\<in>set segments. 10 \<notin> set (strip (seg_text s))"
  proof -
    have h: "10 \<notin> set (lit ''start'' @ TAB @ lit ''end'' @ TAB @ lit ''text'')"
      by (simp add: lit_def TAB_def)
    have rows: "\<forall>l\<in>set (map tsv_row segments). 10 \<notin> set l"
      using that(2) tsv_row_no_newline by auto
    have "f = (lit ''start'' @ TAB @ lit ''end'' @ TAB @ lit ''text'') @ NL
              @ concat (map (\<lambda>l. l @ NL) (map tsv_row segments))"
      unfolding 1 [OF that(1)] by (simp add: tsv_header_def comp_def)
    then show ?thesis
      using split_lines_line [OF h] split_lines_rows [OF rows] by simp
  qed
  have 3: "\<exists>f. save_tsv enc segments = Inr f"
    if "\<forall>s\<in>set segments. \<not> float_overflow (fl (seg_start s * 1000))
             \<and> \<not> float_overflow (fl (seg_end s * 1000)) \<and> encodable enc (tsv_row s)"
    using save_tsv_loop_completes [OF that, of tsv_header]
    by (simp add: save_tsv_def)
  from 1 2 3 show ?thesis by blast
qed

theorem save_tsv_rows_witness:
  "save_tsv UTF8 sample_segments =
     Inr (lit ''start'' @ TAB @ lit ''end'' @ TAB @ lit ''text'' @ NL
          @ lit ''0'' @ TAB @ lit ''3500'' @ TAB @ lit ''hi'' @ NL
          @ lit ''3500'' @ TAB @ lit ''3600500'' @ TAB @ [233] @ NL)
   \<and> split_lines (lit ''start'' @ TAB @ lit ''end'' @ TAB @ lit ''text'' @ NL
          @ lit ''0'' @ TAB @ lit ''3500'' @ TAB @ lit ''hi'' @ NL
          @ lit ''3500'' @ TAB @ lit ''3600500'' @ TAB @ [233] @ NL)
       = [lit ''start'' @ TAB @ lit ''end'' @ TAB @ lit ''text'',
          lit ''0'' @ TAB @ lit ''3500'' @ TAB @ lit ''hi'',
          lit ''3500'' @ TAB @ lit ''3600500'' @ TAB @ [233]]"
proof -
  have ms: "to_ms 0 = Inr 0" "to_ms (7 / 2) = Inr 3500" "to_ms (7201 / 2) = Inr 3600500"
    by (simp_all add: to_ms_def float_cbv cong: let_weak_cong)
  have sv: "save_tsv UTF8 sample_segments =
     Inr (lit ''start'' @ TAB @ lit ''end'' @ TAB @ lit ''text'' @ NL
          @ lit ''0'' @ TAB @ lit ''3500'' @ TAB @ lit ''hi'' @ NL
          @ lit ''3500'' @ TAB @ lit ''3600500'' @ TAB @ [233] @ NL)"
    by (simp add: save_tsv_def sample_segments_def ms file_write_def tsv_header_def
        text_eval TAB_def NL_def strip_def isspace_def)
  from save_tsv_rows [of UTF8 sample_segments] sv show ?thesis
    by (simp add: sample_segments_def strip_def isspace_def tsv_row_def ms_of_def
        text_eval TAB_def NL_def tsv_header_def float_cbv cong: let_weak_cong)
qed

text \<open>
  A segment whose text is \<^verbatim>\<open>" a\nb "\<close> takes two lines of the file: with the header
  the file of one segment has three lines.
\<close>

theorem save_tsv_embedded_newline_counterexample:
  "save_tsv UTF8 [two_line_segment] =
     Inr (lit ''start'' @ TAB @ lit ''end'' @ TAB @ lit ''text'' @ NL
          @ lit ''0'' @ TAB @ lit ''1000'' @ TAB @ lit ''a'' @ NL @ lit ''b'' @ NL)
   \<and> split_lines (lit ''start'' @ TAB @ lit ''end'' @ TAB @ lit ''text'' @ NL
          @ lit ''0'' @ TAB @ lit ''1000'' @ TAB @ lit ''a'' @ NL @ lit ''b'' @ NL)
       = [lit ''start'' @ TAB @ lit ''end'' @ TAB @ lit ''text'',
          lit ''0'' @ TAB @ lit ''1000'' @ TAB @ lit ''a'', lit ''b'']"
proof -
  have ms: "to_ms 0 = Inr 0" "to_ms 1 = Inr 1000"
    by (simp_all add: to_ms_def float_cbv cong: let_weak_cong)
  show ?thesis
    by (simp add: save_tsv_def two_line_segment_def ms file_write_def tsv_header_def
        text_eval TAB_def NL_def strip_def isspace_def)
qed

section \<open>The incremental loop against the batch writers\<close>

lemma and_then_compute:
  "and_then (compute m) f = (case m of Inl e \<Rightarrow> ([], Inl e) | Inr x \<Rightarrow> f x)"
  by (simp add: and_then_def compute_def split: sum.splits prod.splits)

lemma encode_error: "encode enc s = Inl e \<Longrightarrow> e = UnicodeEncodeError"
proof (induction s arbitrary: e)
  case Nil
  then show ?case by simp
next
  case (Cons c s)
  then show ?case by (cases enc) (auto split: sum.splits if_splits)
qed

lemma write_flush_eq:
  "write_flush g s =
     (if encodable UTF8 s then ([Write g s, Flush g], Inr ())
      else ([], Inl UnicodeEncodeError))"
  using encode_error [of UTF8 s]
  by (auto simp: write_flush_def encodable_def split: sum.splits)

lemma and_then_write_flush:
  "and_then (write_flush g s) f =
     (if encodable UTF8 s then (Write g s # Flush g # fst (f ()), snd (f ()))
      else ([], Inl UnicodeEncodeError))"
  by (simp add: write_flush_eq and_then_def split: prod.splits)

lemma process_segment_Inr:
  "process_segment i s = (ws, Inr u) \<longleftrightarrow>
     (\<exists>a b st et sv ev.
        to_ms (seg_start s) = Inr a \<and> to_ms (seg_end s) = Inr b
        \<and> ms_to_srt_time a = Inr st \<and> ms_to_srt_time b = Inr et
        \<and> ms_to_vtt_time a = Inr sv \<and> ms_to_vtt_time b = Inr ev
        \<and> encodable UTF8 (strip (seg_text s) @ lit '' '')
        \<and> encodable UTF8 (str_int a @ TAB @ str_int b @ TAB @ strip (seg_text s) @ NL)
        \<and> encodable UTF8 (str_int (int i) @ NL @ st @ lit '' --> '' @ et @ NL
                           @ strip (seg_text s) @ NL @ NL)
        \<and> encodable UTF8 (sv @ lit '' --> '' @ ev @ NL @ strip (seg_text s) @ NL @ NL)
        \<and> ws = [Write Txt (strip (seg_text s) @ lit '' ''), Flush Txt,
                 Write Tsv (str_int a @ TAB @ str_int b @ TAB @ strip (seg_text s) @ NL),
                 Flush Tsv,
                 Write Srt (str_int (int i) @ NL @ st @ lit '' --> '' @ et @ NL
                            @ strip (seg_text s) @ NL @ NL), Flush Srt,
                 Write Vtt (sv @ lit '' --> '' @ ev @ NL @ strip (seg_text s) @ NL @ NL),
                 Flush Vtt])"
  unfolding process_segment_def Let_def and_then_compute and_then_write_flush
  by (auto simp: write_flush_eq split: sum.splits if_splits)

lemma written_append [simp]: "written f (xs @ ys) = written f xs @ written f ys"
  by (induction f xs rule: written.induct) simp_all



lemma transcribe_loop_Cons_Some:
  "transcribe_loop gpus a i (s # ss) = Some (tr, None) \<longleftrightarrow>
     (\<exists>ev ws rest. thermal_check gpus a i = Some (ev, None)
        \<and> process_segment i s = (ws, Inr ())
        \<and> transcribe_loop gpus a (Suc i) ss = Some (rest, None)
        \<and> tr = ev @ ws @ rest)"
  by (auto split: option.splits prod.splits sum.splits)








lemma batch_gives_loop:
  assumes "\<And>j. \<exists>ev. thermal_check gpus a j = Some (ev, None)"
    and "save_txt_loop UTF8 segments f1 = Inr t1"
    and "save_tsv_loop UTF8 segments f2 = Inr t2"
    and "save_srt_loop UTF8 i segments f3 = Inr t3"
    and "save_vtt_loop UTF8 segments f4 = Inr t4"
  shows "\<exists>tr. transcribe_loop gpus a i segments = Some (tr, None)"
  using assms(2-)
proof (induction segments arbitrary: i f1 f2 f3 f4)
  case Nil
  then show ?case by simp
next
  case (Cons s segments)
  from Cons.prems(1) obtain g1 where
    a1: "encodable UTF8 (strip (seg_text s) @ lit '' '')"
    and r1: "save_txt_loop UTF8 segments g1 = Inr t1"
    by (auto simp: bind_err_Inr_iff file_write_iff)
  from Cons.prems(2) obtain x y g2 where
    x: "to_ms (seg_start s) = Inr x" and y: "to_ms (seg_end s) = Inr y"
    and a2: "encodable UTF8 (str_int x @ TAB @ str_int y @ TAB @ strip (seg_text s) @ NL)"
    and r2: "save_tsv_loop UTF8 segments g2 = Inr t2"
    by (auto simp: bind_err_Inr_iff file_write_iff)
  from Cons.prems(3) x y obtain st et g3 where
    st: "ms_to_srt_time x = Inr st" and et: "ms_to_srt_time y = Inr et"
    and a3: "encodable UTF8 (str_int (int i) @ NL @ st @ lit '' --> '' @ et @ NL
                           @ strip (seg_text s) @ NL @ NL)"
    and r3: "save_srt_loop UTF8 (Suc i) segments g3 = Inr t3"
    by (auto simp: bind_err_Inr_iff file_write_iff)
  from Cons.prems(4) x y obtain sv ev g4 where
    sv: "ms_to_vtt_time x = Inr sv" and ev: "ms_to_vtt_time y = Inr ev"
    and a4: "encodable UTF8 (sv @ lit '' --> '' @ ev @ NL @ strip (seg_text s) @ NL @ NL)"
    and r4: "save_vtt_loop UTF8 segments g4 = Inr t4"
    by (auto simp: bind_err_Inr_iff file_write_iff)
  from Cons.IH [OF r1 r2 r3 r4] obtain rest where
    rest: "transcribe_loop gpus a (Suc i) segments = Some (rest, None)" by blast
  from assms(1) [of i] obtain c where c: "thermal_check gpus a i = Some (c, None)" by blast
  have "\<exists>ws. process_segment i s = (ws, Inr ())"
    unfolding process_segment_Inr using x y st et sv ev a1 a2 a3 a4 by blast
  with rest c show ?case
    unfolding transcribe_loop_Cons_Some by blast
qed

lemma thermal_check_no_gpu:
  "arg_device a \<noteq> lit ''cuda'' \<Longrightarrow> thermal_check gpus a j = Some ([], None)"
  by (simp add: thermal_check_def)







lemma ms_to_srt_time_eq:
  assumes "0 \<le> m" and "m < 17592186044416999"
  shows "ms_to_srt_time m =
           Inr (format_0d 2 (m div 3600000) @ lit '':'' @ format_0d 2 (m div 60000 mod 60)
                @ lit '':'' @ format_0d 2 (m div 1000 mod 60) @ lit '','' 
                @ format_0d 3 (m mod 1000))"
proof -
  note f = time_fields [OF assms]
  show ?thesis
    unfolding ms_to_srt_time_def f(1) by (simp only: sum.case Let_def f)
qed

lemma sample_ms:
  "to_ms 0 = Inr 0" "to_ms (7 / 2) = Inr 3500" "to_ms (7201 / 2) = Inr 3600500"
  by (simp_all add: to_ms_def float_cbv cong: let_weak_cong)

lemma sample_srt:
  "ms_to_srt_time 0 = Inr (lit ''00:00:00,000'')"
  "ms_to_srt_time 3500 = Inr (lit ''00:00:03,500'')"
  "ms_to_srt_time 3600500 = Inr (lit ''01:00:00,500'')"
  using ms_to_srt_time_eq [of 0] ms_to_srt_time_eq [of 3500] ms_to_srt_time_eq [of 3600500]
  by (simp_all add: text_eval)

lemma sample_vtt:
  "ms_to_vtt_time 0 = Inr (lit ''00:00.000'')"
  "ms_to_vtt_time 3500 = Inr (lit ''00:03.500'')"
  "ms_to_vtt_time 3600500 = Inr (lit ''01:00.500'')"
  using ms_to_vtt_time_fields [of 0] ms_to_vtt_time_fields [of 3500]
    ms_to_vtt_time_fields [of 3600500]
  by (simp_all add: text_eval)

lemmas sample_eval =
  sample_segments_def sample_ms sample_srt sample_vtt file_write_def strip_def isspace_def
  text_eval TAB_def NL_def tsv_header_def vtt_header_def

lemma sample_batch:
  "save_txt UTF8 sample_segments = Inr (lit ''hi '' @ [233, 32])"
  "save_tsv UTF8 sample_segments =
     Inr (lit ''start'' @ TAB @ lit ''end'' @ TAB @ lit ''text'' @ NL
          @ lit ''0'' @ TAB @ lit ''3500'' @ TAB @ lit ''hi'' @ NL
          @ lit ''3500'' @ TAB @ lit ''3600500'' @ TAB @ [233] @ NL)"
  "save_srt UTF8 sample_segments =
     Inr (lit ''1'' @ NL @ lit ''00:00:00,000 --> 00:00:03,500'' @ NL @ lit ''hi'' @ NL @ NL
          @ lit ''2'' @ NL @ lit ''00:00:03,500 --> 01:00:00,500'' @ NL @ [233] @ NL @ NL)"
  "save_vtt UTF8 sample_segments =
     Inr (lit ''WEBVTT'' @ NL @ NL
          @ lit ''00:00.000 --> 00:03.500'' @ NL @ lit ''hi'' @ NL @ NL
          @ lit ''00:03.500 --> 01:00.500'' @ NL @ [233] @ NL @ NL)"
  by (simp_all add: save_txt_def save_tsv_def save_srt_def save_vtt_def sample_eval)





section \<open>The thermal check in the loop\<close>

lemma process_segment_no_check: "CheckGpu c \<notin> set (fst (process_segment j s))"
  unfolding process_segment_def Let_def and_then_compute and_then_write_flush
  by (auto simp: write_flush_eq split: sum.splits if_splits)

lemma loop_without_gpu:
  assumes "arg_device a \<noteq> lit ''cuda''"
  shows "\<exists>tr exc. transcribe_loop gpus a i segments = Some (tr, exc)
           \<and> (\<forall>c. CheckGpu c \<notin> set tr)"
proof (induction segments arbitrary: i)
  case Nil
  show ?case by simp
next
  case (Cons s segments)
  note tc = thermal_check_no_gpu [OF assms, of gpus i]
  obtain ws r where p: "process_segment i s = (ws, r)" by (cases "process_segment i s")
  have nws: "\<forall>c. CheckGpu c \<notin> set ws"
    using process_segment_no_check [of _ i s] p by simp
  show ?case
  proof (cases r)
    case (Inl e)
    with tc p nws show ?thesis by simp
  next
    case (Inr u)
    from Cons.IH [of "Suc i"] obtain tr exc where
      "transcribe_loop gpus a (Suc i) segments = Some (tr, exc)" "\<forall>c. CheckGpu c \<notin> set tr"
      by blast
    with tc p nws Inr show ?thesis by simp
  qed
qed

lemma loop_with_gpu:
  assumes "arg_device a = lit ''cuda''"
    and "transcribe_loop gpus a i segments = Some (tr, None)"
  shows "\<exists>cs. list_all2
              (\<lambda>c j. check_gpu_and_pause (gpus j) (arg_temp_limit a) (arg_load_limit a)
                        (arg_pause_time a) = Some (c, None))
              cs [i..<i + length segments]
          \<and> tr = concat (map (\<lambda>(c, j, s). CheckGpu c # fst (process_segment j s))
                            (zip cs (zip [i..<i + length segments] segments)))"
  using assms(2)
proof (induction segments arbitrary: i tr)
  case Nil
  then show ?case by simp
next
  case (Cons s segments)
  from Cons.prems obtain ev ws rest where
    ev: "thermal_check gpus a i = Some (ev, None)"
    and ws: "process_segment i s = (ws, Inr ())"
    and rest: "transcribe_loop gpus a (Suc i) segments = Some (rest, None)"
    and tr: "tr = ev @ ws @ rest"
    unfolding transcribe_loop_Cons_Some by blast
  from ev assms(1) obtain c where
    c: "check_gpu_and_pause (gpus i) (arg_temp_limit a) (arg_load_limit a)
          (arg_pause_time a) = Some (c, None)" and evc: "ev = [CheckGpu c]"
    by (auto simp: thermal_check_def split: option.splits)
  define U where "U = [Suc i..<Suc i + length segments]"
  from Cons.IH [OF rest] obtain cs where
    cs: "list_all2
              (\<lambda>c j. check_gpu_and_pause (gpus j) (arg_temp_limit a) (arg_load_limit a)
                        (arg_pause_time a) = Some (c, None))
              cs U"
    and r: "rest = concat (map (\<lambda>(c, j, s). CheckGpu c # fst (process_segment j s))
                            (zip cs (zip U segments)))"
    unfolding U_def by blast
  have upt: "[i..<i + length (s # segments)] = i # U"
    unfolding U_def using upt_conv_Cons [of i "i + Suc (length segments)"] by simp
  show ?case
    unfolding upt
    by (rule exI [of _ "c # cs"]) (simp add: c cs tr evc ws r)
qed

text \<open>
  C7: when the device is \<^verbatim>\<open>cuda\<close>, the events of a completed loop are, for each segment
  in order, one call of \<^verbatim>\<open>check_gpu_and_pause\<close> with the three limits of the command
  line followed by the writes and flushes of that segment; when the device is anything
  else the loop ends with no such call among its events.  The events of a segment
  never include a call.
\<close>

theorem thermal_check_once_per_segment:
  "(arg_device a = lit ''cuda'' \<and> transcribe_loop gpus a i segments = Some (tr, None) \<longrightarrow>
      (\<exists>cs. list_all2
              (\<lambda>c j. check_gpu_and_pause (gpus j) (arg_temp_limit a) (arg_load_limit a)
                        (arg_pause_time a) = Some (c, None))
              cs [i..<i + length segments]
          \<and> tr = concat (map (\<lambda>(c, j, s). CheckGpu c # fst (process_segment j s))
                            (zip cs (zip [i..<i + length segments] segments)))))
   \<and> (arg_device a \<noteq> lit ''cuda'' \<longrightarrow>
      (\<exists>tr exc. transcribe_loop gpus a i segments = Some (tr, exc)
         \<and> (\<forall>c. CheckGpu c \<notin> set tr)))
   \<and> (\<forall>j s c. CheckGpu c \<notin> set (fst (process_segment j s)))"
  using loop_with_gpu [of a gpus i segments tr] loop_without_gpu [of a gpus i segments]
    process_segment_no_check
  by blast

lemma idle_check:
  "check_gpu_and_pause (idle_gpus j) 55 70 90 =
     Some ([Init, GetHandleByIndex, GetTemperature, GetUtilizationRates, Shutdown], None)"
  by (simp add: check_gpu_and_pause_def try_body_def idle_gpus_def gpu_of_readings_def
      poll_loop.simps)

theorem thermal_check_once_per_segment_witness:
  "(\<exists>tr. transcribe_loop idle_gpus cuda_args 1 sample_segments = Some (tr, None)
      \<and> tr = [CheckGpu [Init, GetHandleByIndex, GetTemperature, GetUtilizationRates,
                         Shutdown]]
             @ fst (process_segment 1 (sample_segments ! 0))
             @ [CheckGpu [Init, GetHandleByIndex, GetTemperature, GetUtilizationRates,
                          Shutdown]]
             @ fst (process_segment 2 (sample_segments ! 1)))
   \<and> (\<exists>tr exc. transcribe_loop idle_gpus cpu_args 1 sample_segments = Some (tr, exc)
         \<and> (\<forall>c. CheckGpu c \<notin> set tr))"
proof -
  have cuda: "arg_device cuda_args = lit ''cuda''"
    and cpu: "arg_device cpu_args \<noteq> lit ''cuda''"
    by (simp_all add: cuda_args_def cpu_args_def lit_def)
  have tc: "\<exists>ev. thermal_check idle_gpus cuda_args j = Some (ev, None)" for j
    by (simp add: thermal_check_def idle_check cuda_args_def)
  from sample_batch have
    "save_txt_loop UTF8 sample_segments [] = Inr (lit ''hi '' @ [233, 32])"
    "save_tsv_loop UTF8 sample_segments tsv_header =
     Inr (lit ''start'' @ TAB @ lit ''end'' @ TAB @ lit ''text'' @ NL
          @ lit ''0'' @ TAB @ lit ''3500'' @ TAB @ lit ''hi'' @ NL
          @ lit ''3500'' @ TAB @ lit ''3600500'' @ TAB @ [233] @ NL)"
    "save_srt_loop UTF8 1 sample_segments [] =
     Inr (lit ''1'' @ NL @ lit ''00:00:00,000 --> 00:00:03,500'' @ NL @ lit ''hi'' @ NL @ NL
          @ lit ''2'' @ NL @ lit ''00:00:03,500 --> 01:00:00,500'' @ NL @ [233] @ NL @ NL)"
    "save_vtt_loop UTF8 sample_segments vtt_header =
     Inr (lit ''WEBVTT'' @ NL @ NL
          @ lit ''00:00.000 --> 00:03.500'' @ NL @ lit ''hi'' @ NL @ NL
          @ lit ''00:03.500 --> 01:00.500'' @ NL @ [233] @ NL @ NL)"
    by (simp_all add: save_txt_def save_tsv_def save_srt_def save_vtt_def)
  from batch_gives_loop [OF tc this] obtain tr where
    tr: "transcribe_loop idle_gpus cuda_args 1 sample_segments = Some (tr, None)"
    by blast
  from thermal_check_once_per_segment [of cuda_args idle_gpus 1 sample_segments tr] cuda tr
  obtain cs where
    cs: "list_all2
              (\<lambda>c j. check_gpu_and_pause (idle_gpus j) (arg_temp_limit cuda_args)
                        (arg_load_limit cuda_args) (arg_pause_time cuda_args) = Some (c, None))
              cs [1..<1 + length sample_segments]"
    and t: "tr = concat (map (\<lambda>(c, j, s). CheckGpu c # fst (process_segment j s))
                            (zip cs (zip [1..<1 + length sample_segments] sample_segments)))"
    by blast
  have len: "[1..<1 + length sample_segments] = [1, 2]"
    by (simp add: sample_segments_def upt_conv_Cons)
  from cs have "cs = [[Init, GetHandleByIndex, GetTemperature, GetUtilizationRates, Shutdown],
                     [Init, GetHandleByIndex, GetTemperature, GetUtilizationRates, Shutdown]]"
    unfolding len by (auto simp: list_all2_Cons2 idle_check cuda_args_def)
  with t have "tr = [CheckGpu [Init, GetHandleByIndex, GetTemperature, GetUtilizationRates,
                         Shutdown]]
             @ fst (process_segment 1 (sample_segments ! 0))
             @ [CheckGpu [Init, GetHandleByIndex, GetTemperature, GetUtilizationRates,
                          Shutdown]]
             @ fst (process_segment 2 (sample_segments ! 1))"
    unfolding len by (simp add: sample_segments_def)
  with tr have 1: "\<exists>tr. transcribe_loop idle_gpus cuda_args 1 sample_segments = Some (tr, None)
      \<and> tr = [CheckGpu [Init, GetHandleByIndex, GetTemperature, GetUtilizationRates,
                         Shutdown]]
             @ fst (process_segment 1 (sample_segments ! 0))
             @ [CheckGpu [Init, GetHandleByIndex, GetTemperature, GetUtilizationRates,
                          Shutdown]]
             @ fst (process_segment 2 (sample_segments ! 1))"
    by blast
  from thermal_check_once_per_segment [of cpu_args idle_gpus 1 sample_segments] cpu
  have 2: "\<exists>tr exc. transcribe_loop idle_gpus cpu_args 1 sample_segments = Some (tr, exc)
         \<and> (\<forall>c. CheckGpu c \<notin> set tr)"
    by blast
  from 1 2 show ?thesis by blast
qed

section \<open>A missing input\<close>



end
